theory Spec2Isabelle
  imports Main "HOL-Library.Sublist"
begin

section \<open>Values and strings\<close>

text \<open>
  The SDK is JavaScript. Strings are modelled as \<open>string\<close> (ASCII text), the values a
  message handler can receive from the wire as the JSON fragment of JavaScript values.
\<close>

datatype jsval =
    Undefined
  | Null
  | JBool bool
  | JNum int
  | JStr string
  | JArr "jsval list"
  | JObj "(string \<times> jsval) list"

datatype error =
    Error string      \<comment> \<open>\<open>new Error(message)\<close>\<close>
  | TypeError string  \<comment> \<open>raised by the runtime, e.g. calling a method that is not there\<close>

text \<open>JavaScript truthiness (\<open>!v\<close> is its negation).\<close>

fun truthy :: "jsval \<Rightarrow> bool" where
  "truthy Undefined = False"
| "truthy Null = False"
| "truthy (JBool b) = b"
| "truthy (JNum n) = (n \<noteq> 0)"
| "truthy (JStr s) = (s \<noteq> [])"
| "truthy (JArr _) = True"
| "truthy (JObj _) = True"

text \<open>
  \<open>v?.name\<close>: \<open>undefined\<close> on \<open>null\<close> and \<open>undefined\<close>, the field of an object,
  \<open>undefined\<close> where the field is absent (also on primitives and arrays, for the
  names used here).
\<close>

fun opt_field :: "jsval \<Rightarrow> string \<Rightarrow> jsval" where
  "opt_field (JObj fs) name = (case map_of fs name of None \<Rightarrow> Undefined | Some v \<Rightarrow> v)"
| "opt_field _ name = Undefined"

text \<open>
  \<open>String.prototype.toLowerCase\<close> on ASCII text: the letters \<open>A\<close> to \<open>Z\<close> are lowered and
  every other ASCII character is kept. The properties of \<open>shouldRespond\<close> are stated for
  ASCII text.
\<close>

definition lower_char :: "char \<Rightarrow> char" where
  "lower_char c =
     (let n = (of_char c :: nat) in if 65 \<le> n \<and> n \<le> 90 then char_of (n + 32) else c)"

definition toLowerCase :: "string \<Rightarrow> string" where
  "toLowerCase s = map lower_char s"

text \<open>\<open>s.includes(m)\<close>: \<open>m\<close> occurs in \<open>s\<close> as a contiguous substring.\<close>

fun includes_str :: "string \<Rightarrow> string \<Rightarrow> bool" where
  "includes_str [] m = (m = [])"
| "includes_str (c # cs) m = (prefix m (c # cs) \<or> includes_str cs m)"

text \<open>The string methods used on a value that may not be a string.\<close>

fun call_toLowerCase :: "jsval \<Rightarrow> error + string" where
  "call_toLowerCase (JStr s) = Inr (toLowerCase s)"
| "call_toLowerCase _ = Inl (TypeError ''toLowerCase is not a function'')"

subsection \<open>shouldRespond\<close>

text \<open>
  \<^verbatim>\<open>
  export function shouldRespond(msg, agentUsername) {
    if (!msg?.content || !agentUsername) return false;
    const lower = msg.content.toLowerCase();
    const mention = `@${agentUsername.toLowerCase()}`;
    return lower.includes(mention);
  }
  \<close>
\<close>

definition shouldRespond :: "jsval \<Rightarrow> jsval \<Rightarrow> error + bool" where
  "shouldRespond msg agentUsername =
     (if \<not> truthy (opt_field msg ''content'') \<or> \<not> truthy agentUsername then Inr False
      else case call_toLowerCase (opt_field msg ''content'') of
             Inl e \<Rightarrow> Inl e
           | Inr lower \<Rightarrow>
               (case call_toLowerCase agentUsername of
                  Inl e \<Rightarrow> Inl e
                | Inr u \<Rightarrow> Inr (includes_str lower (''@'' @ u))))"

text \<open>\<open>apiUrl.replace(/\/$/, '')\<close>: one slash at the very end of the input is removed.\<close>

definition strip_slash :: "string \<Rightarrow> string" where
  "strip_slash u = (if u \<noteq> [] \<and> last u = CHR ''/'' then butlast u else u)"

text \<open>\<open>String.prototype.trim\<close> on ASCII text: white space and line terminators.\<close>

definition is_space :: "char \<Rightarrow> bool" where
  "is_space c = (c \<in> set [CHR 0x09, CHR 0x0A, CHR 0x0B, CHR 0x0C, CHR 0x0D, CHR 0x20])"

definition trim :: "string \<Rightarrow> string" where
  "trim s = rev (dropWhile is_space (rev (dropWhile is_space s)))"

text \<open>The decimal text of a number, as a template literal prints a status code.\<close>

function show_nat :: "nat \<Rightarrow> string" where
  "show_nat n =
     (if n < 10 then [char_of (48 + n)]
      else show_nat (n div 10) @ [char_of (48 + n mod 10)])"
  by pat_completeness auto
termination
  by (relation "measure id") auto

declare show_nat.simps [simp del]

section \<open>Data model\<close>

type_synonym handler = nat   \<comment> \<open>the identity of a function passed to \<open>on\<close>\<close>
type_synonym promise = nat   \<comment> \<open>the address of a promise\<close>
type_synonym sockref = nat   \<comment> \<open>the address of a channel object\<close>

text \<open>Events a channel delivers to its listeners, with the payload the server contract gives.\<close>

datatype event =
    Connect
  | ConnectError string
  | Disconnect string
  | AgencyJoined "string option" "string list"   \<comment> \<open>\<open>{agencyId, members}\<close>\<close>
  | ErrorEvent "string option"                   \<comment> \<open>\<open>{message}\<close>\<close>
  | Other string string                          \<comment> \<open>any other event name, opaque payload\<close>

fun event_name :: "event \<Rightarrow> string" where
  "event_name Connect = ''connect''"
| "event_name (ConnectError _) = ''connect_error''"
| "event_name (Disconnect _) = ''disconnect''"
| "event_name (AgencyJoined _ _) = ''agency-joined''"
| "event_name (ErrorEvent _) = ''error''"
| "event_name (Other n _) = n"

text \<open>
  The functions attached to a channel: a caller's handler, the two arrow functions of
  \<open>connectSocket\<close> and the two closures \<open>onJoined\<close>, \<open>onErr\<close> of one \<open>join\<close> call, which
  are identified by the promise they settle.
\<close>

datatype callback =
    User handler
  | ConnectResolve promise
  | ConnectReject promise
  | OnJoined promise
  | OnErr promise

record message =
  agencyId :: string
  content :: string
  msg_type :: "string option"
  metadata :: "jsval option"

datatype emitted =
    JoinAgency string      \<comment> \<open>\<open>emit('join-agency', {agencyId})\<close>\<close>
  | SendMessage message    \<comment> \<open>\<open>emit('send-message', payload)\<close>\<close>

record channel =
  uri :: string
  auth :: "string option"
  connected :: bool
  closed :: bool
  callbacks :: "string \<Rightarrow> (callback \<times> bool) list"  \<comment> \<open>per event, in order; \<open>True\<close> marks a \<open>once\<close> wrapper\<close>
  outbox :: "emitted list"

datatype resolution =
    Opened "sockref option"               \<comment> \<open>\<open>resolve(this.socket)\<close>\<close>
  | Joined "string option" "string list"  \<comment> \<open>\<open>resolve({agencyId, members})\<close>\<close>

datatype settled = Unsettled | Resolved resolution | Rejected error

record identity =
  user_id :: string
  username :: string
  display_name :: string

record agency =
  agency_id :: string
  slug :: "string option"
  agency_name :: string
  isMember :: bool

record chat_message =
  text_content :: string
  sender_username :: string
  created_at :: string

datatype qvalue = QNum int | QStr string

record request =
  http_method :: string
  url :: string
  query :: "(string \<times> qvalue) list"
  bearer :: "string option"
  body :: "string option"

text \<open>
  The body of a reply whose status is not a success, as \<open>connect\<close> reads it with
  \<open>await res.json().catch(() => ({}))\<close> and \<open>err.error\<close>: the JSON value \<open>null\<close>, or a
  body with its \<open>error\<close> field, a string, if it has one (a body that is not JSON has
  none).
\<close>

datatype error_body = NullBody | ErrorField "string option"

text \<open>
  What a \<open>fetch\<close> gives back: it rejects (no network, a success whose body is not JSON),
  or the status is not a success, or it is a success with the parsed body.
\<close>

datatype 'a reply = Fails error | Status nat error_body | Json 'a

text \<open>
  The parsed body of a successful token exchange: \<open>data.token\<close>, a string, and
  \<open>data.user\<close>, each \<open>None\<close> where the body has no such field or has \<open>null\<close> there. The
  body \<open>null\<close> is \<open>None\<close> as a whole.
\<close>

record auth_data =
  data_token :: "string option"
  data_user :: "identity option"

text \<open>How an awaited call ends: it returns, it throws, or it never settles.\<close>

datatype 'a outcome = Returns 'a | Throws error | Hangs

text \<open>The class \<open>CrustoceanAgent\<close>: the fields its constructor sets.\<close>

record CrustoceanAgent =
  apiUrl :: string
  agentToken :: string
  token :: "string option"
  user :: "identity option"
  socket :: "sockref option"
  currentAgencyId :: "string option"
  listeners :: "(string \<times> handler list) list"   \<comment> \<open>a \<open>Map\<close>: keys in insertion order\<close>

text \<open>
  The agent together with what it acts on: the channel objects and promises it has
  created, the requests it has issued, the console, the calls made to the caller's
  handlers, and what the server will answer (to each kind of request in turn, and the
  events it will deliver, each on a given channel).
\<close>

record world = CrustoceanAgent +
  sockets :: "channel list"
  promises :: "settled list"
  requests :: "request list"
  warnings :: "(string \<times> string) list"
  calls :: "(handler \<times> event) list"
  auth_replies :: "auth_data option reply list"
  agencies_replies :: "agency list reply list"
  messages_replies :: "chat_message list reply list"
  inbox :: "(sockref \<times> event) list"

section \<open>The channel\<close>

text \<open>
  Modelled from the spec: the bidirectional event channel is the socket.io client, which
  is not part of the repository. Its listeners follow the event-emitter contract the
  session relies on: \<open>on\<close> appends to the event's list, \<open>once\<close> appends a one-shot wrapper
  of the function, \<open>off\<close> removes the first entry of the event's list that is the function
  or wraps it, and an event is delivered to a copy of the list taken when it arrives, in
  order; a one-shot wrapper removes itself before it calls its function.
\<close>

definition update_channel :: "sockref \<Rightarrow> (channel \<Rightarrow> channel) \<Rightarrow> world \<Rightarrow> world" where
  "update_channel k f w =
     (if k < length (sockets w) then w\<lparr>sockets := (sockets w)[k := f (sockets w ! k)]\<rparr> else w)"

definition socket_on :: "sockref \<Rightarrow> string \<Rightarrow> callback \<Rightarrow> world \<Rightarrow> world" where
  "socket_on k ev f =
     update_channel k (\<lambda>c. c\<lparr>callbacks := (callbacks c)(ev := callbacks c ev @ [(f, False)])\<rparr>)"

definition socket_once :: "sockref \<Rightarrow> string \<Rightarrow> callback \<Rightarrow> world \<Rightarrow> world" where
  "socket_once k ev f =
     update_channel k (\<lambda>c. c\<lparr>callbacks := (callbacks c)(ev := callbacks c ev @ [(f, True)])\<rparr>)"

fun remove_first :: "callback \<Rightarrow> (callback \<times> bool) list \<Rightarrow> (callback \<times> bool) list" where
  "remove_first f [] = []"
| "remove_first f (e # es) = (if fst e = f then es else e # remove_first f es)"

definition socket_off :: "sockref \<Rightarrow> string \<Rightarrow> callback \<Rightarrow> world \<Rightarrow> world" where
  "socket_off k ev f =
     update_channel k (\<lambda>c. c\<lparr>callbacks := (callbacks c)(ev := remove_first f (callbacks c ev))\<rparr>)"

definition socket_emit :: "sockref \<Rightarrow> emitted \<Rightarrow> world \<Rightarrow> world" where
  "socket_emit k m = update_channel k (\<lambda>c. c\<lparr>outbox := outbox c @ [m]\<rparr>)"

text \<open>The wrapper of \<open>once\<close> takes itself off the list: \<open>this.off(event, on)\<close>.\<close>

definition unwrap_once :: "sockref \<Rightarrow> string \<Rightarrow> callback \<Rightarrow> world \<Rightarrow> world" where
  "unwrap_once k ev f =
     update_channel k (\<lambda>c. c\<lparr>callbacks := (callbacks c)(ev := remove1 (f, True) (callbacks c ev))\<rparr>)"

text \<open>\<open>this.socket?.connected\<close>\<close>

definition socket_connected :: "world \<Rightarrow> bool" where
  "socket_connected w =
     (case socket w of
        None \<Rightarrow> False
      | Some k \<Rightarrow> k < length (sockets w) \<and> connected (sockets w ! k))"

subsection \<open>Promises\<close>

definition promise_state :: "world \<Rightarrow> promise \<Rightarrow> settled" where
  "promise_state w p = (if p < length (promises w) then promises w ! p else Unsettled)"

text \<open>\<open>resolve\<close> and \<open>reject\<close> settle a promise once; later calls do nothing.\<close>

definition settle :: "promise \<Rightarrow> settled \<Rightarrow> world \<Rightarrow> world" where
  "settle p v w =
     (if p < length (promises w) \<and> promises w ! p = Unsettled
      then w\<lparr>promises := (promises w)[p := v]\<rparr> else w)"

text \<open>Truthiness of a string that may be \<open>null\<close> or \<open>undefined\<close>.\<close>

definition present :: "string option \<Rightarrow> bool" where
  "present s = (case s of None \<Rightarrow> False | Some t \<Rightarrow> t \<noteq> [])"

text \<open>\<open>a || b\<close> for such a string and a fallback.\<close>

definition or_else :: "string option \<Rightarrow> string \<Rightarrow> string" where
  "or_else s d = (case s of None \<Rightarrow> d | Some t \<Rightarrow> if t = [] then d else t)"

subsection \<open>Calling a listener\<close>

text \<open>
  What each attached function does when the channel calls it with an event; the boolean
  says that it threw. A caller's handler is opaque: the call is recorded. The closures of
  \<open>join\<close> read \<open>this.socket\<close> when they run:
  \<^verbatim>\<open>
      const onJoined = ({ agencyId, members }) => {
        this.currentAgencyId = agencyId;
        this.socket.off('error', onErr);
        resolve({ agencyId, members });
      };
      const onErr = (err) => {
        this.socket.off('agency-joined', onJoined);
        reject(new Error(err?.message || 'Join failed'));
      };
  \<close>
\<close>

fun ack_of :: "event \<Rightarrow> string option \<times> string list" where
  "ack_of (AgencyJoined a ms) = (a, ms)"
| "ack_of _ = (None, [])"

fun message_of :: "event \<Rightarrow> string option" where
  "message_of (ErrorEvent m) = m"
| "message_of _ = None"

fun connect_error_of :: "event \<Rightarrow> error" where
  "connect_error_of (ConnectError m) = Error m"
| "connect_error_of _ = Error []"

fun invoke :: "callback \<Rightarrow> event \<Rightarrow> world \<Rightarrow> bool \<times> world" where
  "invoke (User h) ev w = (False, w\<lparr>calls := calls w @ [(h, ev)]\<rparr>)"
| "invoke (ConnectResolve p) ev w = (False, settle p (Resolved (Opened (socket w))) w)"
| "invoke (ConnectReject p) ev w = (False, settle p (Rejected (connect_error_of ev)) w)"
| "invoke (OnJoined p) ev w =
     (let (a, ms) = ack_of ev;
          w1 = w\<lparr>currentAgencyId := a\<rparr>
      in case socket w1 of
           None \<Rightarrow> (True, w1)
         | Some k \<Rightarrow> (False, settle p (Resolved (Joined a ms)) (socket_off k ''error'' (OnErr p) w1)))"
| "invoke (OnErr p) ev w =
     (case socket w of
        None \<Rightarrow> (True, w)
      | Some k \<Rightarrow>
          (False, settle p (Rejected (Error (or_else (message_of ev) ''Join failed'')))
                    (socket_off k ''agency-joined'' (OnJoined p) w)))"

text \<open>
  Delivery of one event on channel \<open>k\<close> to the listeners in the copy \<open>es\<close>; a listener
  that throws ends the delivery.
\<close>

fun dispatch :: "sockref \<Rightarrow> event \<Rightarrow> (callback \<times> bool) list \<Rightarrow> world \<Rightarrow> world" where
  "dispatch k ev [] w = w"
| "dispatch k ev ((f, once) # es) w =
     (let w1 = (if once then unwrap_once k (event_name ev) f w else w);
          (threw, w2) = invoke f ev w1
      in if threw then w2 else dispatch k ev es w2)"

text \<open>
  A channel takes \<open>connect\<close> and \<open>connect_error\<close> while it is not connected, every other
  event while it is, and nothing once the client has closed it.
\<close>

definition admits :: "channel \<Rightarrow> event \<Rightarrow> bool" where
  "admits c ev =
     (\<not> closed c \<and>
      (case ev of Connect \<Rightarrow> \<not> connected c | ConnectError _ \<Rightarrow> \<not> connected c | _ \<Rightarrow> connected c))"

definition arrive :: "event \<Rightarrow> channel \<Rightarrow> channel" where
  "arrive ev c =
     (case ev of Connect \<Rightarrow> c\<lparr>connected := True\<rparr> | Disconnect _ \<Rightarrow> c\<lparr>connected := False\<rparr> | _ \<Rightarrow> c)"

definition deliver :: "sockref \<Rightarrow> event \<Rightarrow> world \<Rightarrow> world" where
  "deliver k ev w =
     (if k < length (sockets w) \<and> admits (sockets w ! k) ev
      then dispatch k ev (callbacks (sockets w ! k) (event_name ev)) (update_channel k (arrive ev) w)
      else w)"

subsection \<open>Awaiting\<close>

text \<open>
  \<open>await\<close> on a promise that the channel settles: the events of the inbox are delivered
  in turn until the promise is settled. With no event left it never settles.
\<close>

fun run_inbox :: "promise \<Rightarrow> (sockref \<times> event) list \<Rightarrow> world \<Rightarrow> world" where
  "run_inbox p [] w = w\<lparr>inbox := []\<rparr>"
| "run_inbox p ((k, ev) # rest) w =
     (if promise_state w p \<noteq> Unsettled then w\<lparr>inbox := (k, ev) # rest\<rparr>
      else run_inbox p rest (deliver k ev w))"

definition await :: "promise \<Rightarrow> world \<Rightarrow> resolution outcome \<times> world" where
  "await p w =
     (let w' = run_inbox p (inbox w) w
      in case promise_state w' p of
           Unsettled \<Rightarrow> (Hangs, w')
         | Resolved v \<Rightarrow> (Returns v, w')
         | Rejected e \<Rightarrow> (Throws e, w'))"

text \<open>\<open>await m\<close> followed by the rest of an \<open>async\<close> function: a throw propagates.\<close>

definition and_then ::
  "'a outcome \<times> world \<Rightarrow> ('a \<Rightarrow> world \<Rightarrow> 'b outcome \<times> world) \<Rightarrow> 'b outcome \<times> world" where
  "and_then m f =
     (case m of
        (Returns x, w) \<Rightarrow> f x w
      | (Throws e, w) \<Rightarrow> (Throws e, w)
      | (Hangs, w) \<Rightarrow> (Hangs, w))"

section \<open>The agent\<close>

text \<open>
  \<^verbatim>\<open>
  constructor({ apiUrl, agentToken }) {
    this.apiUrl = apiUrl.replace(/\/$/, '');
    this.agentToken = agentToken;
    this.token = null;
    this.user = null;
    this.socket = null;
    this.currentAgencyId = null;
    this.listeners = new Map();
  }
  \<close>
  A new agent starts in a world where nothing has been created or requested yet.
\<close>

definition ctor :: "string \<Rightarrow> string \<Rightarrow> world" where
  "ctor url0 tok =
     \<lparr>apiUrl = strip_slash url0, agentToken = tok, token = None, user = None, socket = None,
      currentAgencyId = None, listeners = [],
      sockets = [], promises = [], requests = [], warnings = [], calls = [],
      auth_replies = [], agencies_replies = [], messages_replies = [], inbox = []\<rparr>"

text \<open>The server's side: what it will answer and deliver from now on.\<close>

definition script ::
  "auth_data option reply list \<Rightarrow> agency list reply list \<Rightarrow> chat_message list reply list \<Rightarrow>
   (sockref \<times> event) list \<Rightarrow> world \<Rightarrow> world" where
  "script a d m i w = w\<lparr>auth_replies := a, agencies_replies := d, messages_replies := m, inbox := i\<rparr>"

text \<open>
  \<^verbatim>\<open>
  async connect() {
    const res = await fetch(`${this.apiUrl}/api/auth/agent`, {
      method: 'POST',
      headers: { 'Content-Type': 'application/json' },
      body: JSON.stringify({ agentToken: this.agentToken }),
    });
    if (!res.ok) {
      const err = await res.json().catch(() => ({}));
      throw new Error(err.error || `Auth failed: ${res.status}`);
    }
    const data = await res.json();
    this.token = data.token;
    this.user = data.user;
    return data;
  }
  \<close>
\<close>

definition connect :: "world \<Rightarrow> auth_data outcome \<times> world" where
  "connect w =
     (let w1 = w\<lparr>requests := requests w @
                  [\<lparr>http_method = ''POST'', url = apiUrl w @ ''/api/auth/agent'', query = [],
                    bearer = None, body = Some (agentToken w)\<rparr>]\<rparr>
      in case auth_replies w1 of
           [] \<Rightarrow> (Hangs, w1)
         | r # rs \<Rightarrow>
             (let w2 = w1\<lparr>auth_replies := rs\<rparr>
              in case r of
                   Fails e \<Rightarrow> (Throws e, w2)
                 | Status st NullBody \<Rightarrow>
                     (Throws (TypeError ''Cannot read properties of null (reading error)''), w2)
                 | Status st (ErrorField err) \<Rightarrow>
                     (Throws (Error (or_else err (''Auth failed: '' @ show_nat st))), w2)
                 | Json None \<Rightarrow>
                     (Throws (TypeError ''Cannot read properties of null (reading token)''), w2)
                 | Json (Some data) \<Rightarrow>
                     (Returns data, w2\<lparr>token := data_token data, user := data_user data\<rparr>)))"

text \<open>\<open>if (!this.token) await this.connect();\<close>\<close>

definition ensure_token :: "world \<Rightarrow> unit outcome \<times> world" where
  "ensure_token w =
     (if \<not> present (token w) then and_then (connect w) (\<lambda>_ w1. (Returns (), w1))
      else (Returns (), w))"

text \<open>
  \<^verbatim>\<open>
  async connectSocket() {
    if (!this.token) await this.connect();

    const { io } = await import('socket.io-client');
    this.socket = io(this.apiUrl, {
      auth: { token: this.token },
      transports: ['websocket', 'polling'],
    });

    return new Promise((resolve, reject) => {
      this.socket.on('connect', () => resolve(this.socket));
      this.socket.on('connect_error', (err) => reject(err));
    });
  }
  \<close>
  \<open>io\<close> gives a new channel object each time. \<open>open_socket\<close> is the function up to the
  promise it returns, \<open>connectSocket\<close> is the awaited call.
\<close>

definition open_socket :: "world \<Rightarrow> promise outcome \<times> world" where
  "open_socket w =
     and_then (ensure_token w) (\<lambda>_ w1.
       let k = length (sockets w1);
           p = length (promises w1);
           c = \<lparr>uri = apiUrl w1, auth = token w1, connected = False, closed = False,
                callbacks = (\<lambda>_. []), outbox = []\<rparr>;
           w2 = w1\<lparr>socket := Some k, sockets := sockets w1 @ [c],
                   promises := promises w1 @ [Unsettled]\<rparr>
       in (Returns p,
           socket_on k ''connect_error'' (ConnectReject p)
             (socket_on k ''connect'' (ConnectResolve p) w2)))"

definition connectSocket :: "world \<Rightarrow> resolution outcome \<times> world" where
  "connectSocket w = and_then (open_socket w) await"

text \<open>
  \<^verbatim>\<open>
  async getAgencies() {
    if (!this.token) await this.connect();
    const res = await fetch(`${this.apiUrl}/api/agencies`, {
      headers: { Authorization: `Bearer ${this.token}` },
    });
    if (!res.ok) throw new Error(`Failed to fetch agencies: ${res.status}`);
    return res.json();
  }
  \<close>
\<close>

definition getAgencies :: "world \<Rightarrow> agency list outcome \<times> world" where
  "getAgencies w =
     and_then (ensure_token w) (\<lambda>_ w1.
       let w2 = w1\<lparr>requests := requests w1 @
                    [\<lparr>http_method = ''GET'', url = apiUrl w1 @ ''/api/agencies'', query = [],
                      bearer = token w1, body = None\<rparr>]\<rparr>
       in case agencies_replies w2 of
            [] \<Rightarrow> (Hangs, w2)
          | r # rs \<Rightarrow>
              (let w3 = w2\<lparr>agencies_replies := rs\<rparr>
               in case r of
                    Fails e \<Rightarrow> (Throws e, w3)
                  | Status st err \<Rightarrow> (Throws (Error (''Failed to fetch agencies: '' @ show_nat st)), w3)
                  | Json agencies \<Rightarrow> (Returns agencies, w3)))"

text \<open>
  \<^verbatim>\<open>
  async join(agencyIdOrSlug) {
    if (!this.socket?.connected) await this.connectSocket();

    const agencies = await this.getAgencies();
    const agency = agencies.find(
      (a) => a.id === agencyIdOrSlug || a.slug === agencyIdOrSlug
    );
    if (!agency) throw new Error(`Agency not found: ${agencyIdOrSlug}`);

    return new Promise((resolve, reject) => {
      const onJoined = ...;
      const onErr = ...;
      this.socket.once('agency-joined', onJoined);
      this.socket.once('error', onErr);
      this.socket.emit('join-agency', { agencyId: agency.id });
    });
  }
  \<close>
  \<open>join_request\<close> is the function up to the promise it returns, \<open>join\<close> the awaited call.
\<close>

definition join_request :: "string \<Rightarrow> world \<Rightarrow> promise outcome \<times> world" where
  "join_request agencyIdOrSlug w =
     and_then (if \<not> socket_connected w then connectSocket w else (Returns (Opened (socket w)), w))
       (\<lambda>_ w1.
     and_then (getAgencies w1) (\<lambda>agencies w2.
       case find (\<lambda>a. agency_id a = agencyIdOrSlug \<or> slug a = Some agencyIdOrSlug) agencies of
         None \<Rightarrow> (Throws (Error (''Agency not found: '' @ agencyIdOrSlug)), w2)
       | Some a \<Rightarrow>
           (case socket w2 of
              None \<Rightarrow> (Throws (TypeError ''this.socket is null''), w2)
            | Some k \<Rightarrow>
                (let p = length (promises w2);
                     w3 = w2\<lparr>promises := promises w2 @ [Unsettled]\<rparr>
                 in (Returns p,
                     socket_emit k (JoinAgency (agency_id a))
                       (socket_once k ''error'' (OnErr p)
                         (socket_once k ''agency-joined'' (OnJoined p) w3)))))))"

definition join :: "string \<Rightarrow> world \<Rightarrow> resolution outcome \<times> world" where
  "join agencyIdOrSlug w = and_then (join_request agencyIdOrSlug w) await"

text \<open>
  \<^verbatim>\<open>
  send(content, options = {}) {
    if (!this.socket?.connected || !this.currentAgencyId) {
      throw new Error('Not connected or no agency joined. Call join() first.');
    }
    const payload = {
      agencyId: this.currentAgencyId,
      content: String(content).trim(),
    };
    if (options.type) payload.type = options.type;
    if (options.metadata != null) payload.metadata = options.metadata;
    this.socket.emit('send-message', payload);
  }
  \<close>
\<close>

record send_options =
  opt_type :: "string option"
  opt_metadata :: jsval

definition send :: "string \<Rightarrow> send_options \<Rightarrow> world \<Rightarrow> unit outcome \<times> world" where
  "send message_text options w =
     (if \<not> socket_connected w \<or> \<not> present (currentAgencyId w)
      then (Throws (Error ''Not connected or no agency joined. Call join() first.''), w)
      else case socket w of
             None \<Rightarrow> (Throws (TypeError ''this.socket is null''), w)
           | Some k \<Rightarrow>
               (let payload =
                      \<lparr>agencyId = or_else (currentAgencyId w) [], content = trim message_text,
                       msg_type = (if present (opt_type options) then opt_type options else None),
                       metadata = (if opt_metadata options = Null \<or> opt_metadata options = Undefined
                                   then None else Some (opt_metadata options))\<rparr>
                in (Returns (), socket_emit k (SendMessage payload) w)))"

text \<open>
  \<^verbatim>\<open>
  async joinAllMemberAgencies() {
    const agencies = await this.getAgencies();
    const memberAgencies = agencies.filter((a) => a.isMember);
    const joined = [];
    for (const a of memberAgencies) {
      try {
        await this.join(a.slug || a.id);
        joined.push(a.slug || a.id);
      } catch (err) {
        console.warn(`Failed to join ${a.slug || a.id}:`, err.message);
      }
    }
    return joined;
  }
  \<close>
\<close>

definition slug_or_id :: "agency \<Rightarrow> string" where
  "slug_or_id a = or_else (slug a) (agency_id a)"

fun error_message :: "error \<Rightarrow> string" where
  "error_message (Error m) = m"
| "error_message (TypeError m) = m"

fun join_each :: "agency list \<Rightarrow> string list \<Rightarrow> world \<Rightarrow> string list outcome \<times> world" where
  "join_each [] joined w = (Returns joined, w)"
| "join_each (a # as) joined w =
     (case join (slug_or_id a) w of
        (Returns _, w1) \<Rightarrow> join_each as (joined @ [slug_or_id a]) w1
      | (Throws err, w1) \<Rightarrow>
          join_each as joined
            (w1\<lparr>warnings := warnings w1 @
                   [(''Failed to join '' @ slug_or_id a @ '':'', error_message err)]\<rparr>)
      | (Hangs, w1) \<Rightarrow> (Hangs, w1))"

definition joinAllMemberAgencies :: "world \<Rightarrow> string list outcome \<times> world" where
  "joinAllMemberAgencies w =
     and_then (getAgencies w) (\<lambda>agencies w1. join_each (filter isMember agencies) [] w1)"

text \<open>
  \<^verbatim>\<open>
  on(event, handler) {
    if (!this.listeners.has(event)) this.listeners.set(event, []);
    this.listeners.get(event).push(handler);
    if (this.socket) this.socket.on(event, handler);
  }

  off(event, handler) {
    const list = this.listeners.get(event);
    if (list) {
      const i = list.indexOf(handler);
      if (i >= 0) list.splice(i, 1);
    }
    if (this.socket) this.socket.off(event, handler);
  }
  \<close>
\<close>

fun push_handler ::
  "string \<Rightarrow> handler \<Rightarrow> (string \<times> handler list) list \<Rightarrow> (string \<times> handler list) list" where
  "push_handler ev h [] = [(ev, [h])]"
| "push_handler ev h ((e, hs) # ls) =
     (if e = ev then (e, hs @ [h]) # ls else (e, hs) # push_handler ev h ls)"

definition on :: "string \<Rightarrow> handler \<Rightarrow> world \<Rightarrow> world" where
  "on ev h w =
     (let w1 = w\<lparr>listeners := push_handler ev h (listeners w)\<rparr>
      in case socket w1 of None \<Rightarrow> w1 | Some k \<Rightarrow> socket_on k ev (User h) w1)"

fun splice_handler ::
  "string \<Rightarrow> handler \<Rightarrow> (string \<times> handler list) list \<Rightarrow> (string \<times> handler list) list" where
  "splice_handler ev h [] = []"
| "splice_handler ev h ((e, hs) # ls) =
     (if e = ev then (e, remove1 h hs) # ls else (e, hs) # splice_handler ev h ls)"

definition off :: "string \<Rightarrow> handler \<Rightarrow> world \<Rightarrow> world" where
  "off ev h w =
     (let w1 = w\<lparr>listeners := splice_handler ev h (listeners w)\<rparr>
      in case socket w1 of None \<Rightarrow> w1 | Some k \<Rightarrow> socket_off k ev (User h) w1)"

text \<open>
  \<^verbatim>\<open>
  async getRecentMessages({ limit = 50, before, mentions } = {}) {
    if (!this.token) await this.connect();
    if (!this.currentAgencyId) throw new Error('No agency joined. Call join() first.');
    const params = new URLSearchParams({ limit: Math.min(limit, 100) });
    if (before) params.set('before', before);
    if (mentions) params.set('mentions', mentions);
    const res = await fetch(
      `${this.apiUrl}/api/agencies/${this.currentAgencyId}/messages?${params}`,
      { headers: { Authorization: `Bearer ${this.token}` } }
    );
    if (!res.ok) throw new Error(`Failed to fetch messages: ${res.status}`);
    return res.json();
  }
  \<close>
  The query string is kept as the list of its parameters.
\<close>

record history_options =
  limit :: "int option"
  before :: "string option"
  mentions :: "string option"

definition getRecentMessages :: "history_options \<Rightarrow> world \<Rightarrow> chat_message list outcome \<times> world" where
  "getRecentMessages opts w =
     and_then (ensure_token w) (\<lambda>_ w1.
       if \<not> present (currentAgencyId w1)
       then (Throws (Error ''No agency joined. Call join() first.''), w1)
       else
         let params =
               [(''limit'', QNum (min (case limit opts of None \<Rightarrow> 50 | Some l \<Rightarrow> l) 100))] @
               (if present (before opts) then [(''before'', QStr (or_else (before opts) []))] else []) @
               (if present (mentions opts) then [(''mentions'', QStr (or_else (mentions opts) []))] else []);
             w2 = w1\<lparr>requests := requests w1 @
                    [\<lparr>http_method = ''GET'',
                      url = apiUrl w1 @ ''/api/agencies/'' @ or_else (currentAgencyId w1) [] @ ''/messages'',
                      query = params, bearer = token w1, body = None\<rparr>]\<rparr>
         in case messages_replies w2 of
              [] \<Rightarrow> (Hangs, w2)
            | r # rs \<Rightarrow>
                (let w3 = w2\<lparr>messages_replies := rs\<rparr>
                 in case r of
                      Fails e \<Rightarrow> (Throws e, w3)
                    | Status st err \<Rightarrow> (Throws (Error (''Failed to fetch messages: '' @ show_nat st)), w3)
                    | Json ms \<Rightarrow> (Returns ms, w3)))"

text \<open>
  \<^verbatim>\<open>
  disconnect() {
    if (this.socket) {
      this.socket.disconnect();
      this.socket = null;
    }
    this.currentAgencyId = null;
  }
  \<close>
  Closing a channel that is connected tells its \<open>disconnect\<close> listeners; a closed channel
  delivers nothing more.
\<close>

definition socket_disconnect :: "sockref \<Rightarrow> world \<Rightarrow> world" where
  "socket_disconnect k w =
     (if k < length (sockets w)
      then let c = sockets w ! k;
               w1 = update_channel k (\<lambda>c. c\<lparr>connected := False, closed := True\<rparr>) w
           in if connected c
              then dispatch k (Disconnect ''io client disconnect'') (callbacks c ''disconnect'') w1
              else w1
      else w)"

definition disconnect :: "world \<Rightarrow> world" where
  "disconnect w =
     (let w1 = (case socket w of None \<Rightarrow> w | Some k \<Rightarrow> (socket_disconnect k w)\<lparr>socket := None\<rparr>)
      in w1\<lparr>currentAgencyId := None\<rparr>)"

text \<open>
  \<^verbatim>\<open>
  async connectAndJoin(agencyIdOrSlug = 'lobby') {
    await this.connect();
    await this.connectSocket();
    for (const [ev, handlers] of this.listeners) {
      for (const h of handlers) this.socket.on(ev, h);
    }
    return this.join(agencyIdOrSlug);
  }
  \<close>
\<close>

definition attach_listeners :: "sockref \<Rightarrow> (string \<times> handler list) list \<Rightarrow> world \<Rightarrow> world" where
  "attach_listeners k ls w =
     fold (\<lambda>(ev, handlers) w'. fold (\<lambda>h. socket_on k ev (User h)) handlers w') ls w"

definition connectAndJoin :: "string option \<Rightarrow> world \<Rightarrow> resolution outcome \<times> world" where
  "connectAndJoin agencyIdOrSlug w =
     and_then (connect w) (\<lambda>_ w1.
     and_then (connectSocket w1) (\<lambda>_ w2.
       case socket w2 of
         None \<Rightarrow> (Throws (TypeError ''this.socket is null''), w2)
       | Some k \<Rightarrow>
           join (case agencyIdOrSlug of None \<Rightarrow> ''lobby'' | Some x \<Rightarrow> x)
             (attach_listeners k (listeners w2) w2)))"

section \<open>Notions used in the properties\<close>





text \<open>\<open>this.listeners.get(event)\<close>, empty where the event has no entry.\<close>

definition handlers_of :: "world \<Rightarrow> string \<Rightarrow> handler list" where
  "handlers_of w ev = (case map_of (listeners w) ev of None \<Rightarrow> [] | Some hs \<Rightarrow> hs)"

text \<open>The caller's handlers attached to a channel for an event, in the order they are called.\<close>

fun user_of :: "callback \<times> bool \<Rightarrow> handler list" where
  "user_of (User h, _) = [h]"
| "user_of _ = []"

definition attached :: "channel \<Rightarrow> string \<Rightarrow> handler list" where
  "attached c ev = concat (map user_of (callbacks c ev))"

text \<open>Every list of emitted events, channel by channel.\<close>

definition outboxes :: "world \<Rightarrow> emitted list list" where
  "outboxes w = map outbox (sockets w)"

text \<open>
  The states an agent can be in: it is constructed, its methods are called with any
  arguments (awaited, or left with their promise pending as \<open>open_socket\<close> and
  \<open>join_request\<close>), the server's answers are whatever they are, and any channel the agent
  has opened delivers any event at any moment between the calls.
\<close>

inductive reachable :: "world \<Rightarrow> bool" where
  constructed: "reachable (ctor url0 tok)"
| server: "reachable w \<Longrightarrow> reachable (script a d m i w)"
| delivered: "reachable w \<Longrightarrow> reachable (deliver k ev w)"
| connect: "reachable w \<Longrightarrow> reachable (snd (connect w))"
| open_socket: "reachable w \<Longrightarrow> reachable (snd (open_socket w))"
| connectSocket: "reachable w \<Longrightarrow> reachable (snd (connectSocket w))"
| join_request: "reachable w \<Longrightarrow> reachable (snd (join_request x w))"
| join: "reachable w \<Longrightarrow> reachable (snd (join x w))"
| joinAllMemberAgencies: "reachable w \<Longrightarrow> reachable (snd (joinAllMemberAgencies w))"
| send: "reachable w \<Longrightarrow> reachable (snd (send message_text options w))"
| on: "reachable w \<Longrightarrow> reachable (on event h w)"
| off: "reachable w \<Longrightarrow> reachable (off event h w)"
| getAgencies: "reachable w \<Longrightarrow> reachable (snd (getAgencies w))"
| getRecentMessages: "reachable w \<Longrightarrow> reachable (snd (getRecentMessages opts w))"
| disconnect: "reachable w \<Longrightarrow> reachable (disconnect w)"
| connectAndJoin: "reachable w \<Longrightarrow> reachable (snd (connectAndJoin y w))"

text \<open>A channel none of whose listeners is the \<open>onJoined\<close> closure of a \<open>join\<close>.\<close>

fun is_onJoined :: "callback \<Rightarrow> bool" where
  "is_onJoined (OnJoined _) = True"
| "is_onJoined _ = False"

definition no_onJoined :: "channel \<Rightarrow> bool" where
  "no_onJoined c = (\<forall>ev. \<forall>e \<in> set (callbacks c ev). \<not> is_onJoined (fst e))"

text \<open>
  The server's side of the token exchange: a successful reply with an object for a body
  carries a token.
\<close>

fun carries_token :: "auth_data option reply \<Rightarrow> bool" where
  "carries_token (Json (Some d)) = (data_token d \<noteq> None)"
| "carries_token _ = True"

definition issues_tokens :: "auth_data option reply list \<Rightarrow> bool" where
  "issues_tokens a = list_all carries_token a"

text \<open>The states an agent can be in when the server keeps to that.\<close>

inductive reachable_issuing :: "world \<Rightarrow> bool" where
  constructed: "reachable_issuing (ctor url0 tok)"
| server: "reachable_issuing w \<Longrightarrow> issues_tokens a \<Longrightarrow> reachable_issuing (script a d m i w)"
| delivered: "reachable_issuing w \<Longrightarrow> reachable_issuing (deliver k ev w)"
| connect: "reachable_issuing w \<Longrightarrow> reachable_issuing (snd (connect w))"
| open_socket: "reachable_issuing w \<Longrightarrow> reachable_issuing (snd (open_socket w))"
| connectSocket: "reachable_issuing w \<Longrightarrow> reachable_issuing (snd (connectSocket w))"
| join_request: "reachable_issuing w \<Longrightarrow> reachable_issuing (snd (join_request x w))"
| join: "reachable_issuing w \<Longrightarrow> reachable_issuing (snd (join x w))"
| joinAllMemberAgencies:
    "reachable_issuing w \<Longrightarrow> reachable_issuing (snd (joinAllMemberAgencies w))"
| send: "reachable_issuing w \<Longrightarrow> reachable_issuing (snd (send message_text options w))"
| on: "reachable_issuing w \<Longrightarrow> reachable_issuing (on event h w)"
| off: "reachable_issuing w \<Longrightarrow> reachable_issuing (off event h w)"
| getAgencies: "reachable_issuing w \<Longrightarrow> reachable_issuing (snd (getAgencies w))"
| getRecentMessages: "reachable_issuing w \<Longrightarrow> reachable_issuing (snd (getRecentMessages opts w))"
| disconnect: "reachable_issuing w \<Longrightarrow> reachable_issuing (disconnect w)"
| connectAndJoin: "reachable_issuing w \<Longrightarrow> reachable_issuing (snd (connectAndJoin y w))"

text \<open>
  The invariant behind the credential property: the replies still to come carry a token,
  and while there is no session credential, no room is current and no channel waits for a
  join acknowledgment.
\<close>

definition credential_inv :: "world \<Rightarrow> bool" where
  "credential_inv w =
     (issues_tokens (auth_replies w) \<and>
      (token w = None \<longrightarrow> currentAgencyId w = None \<and> list_all no_onJoined (sockets w)))"

subsection \<open>A session used as the running example\<close>

definition bot :: identity where
  "bot = \<lparr>user_id = ''u1'', username = ''bot'', display_name = ''Bot''\<rparr>"

text \<open>A successful token exchange, and one whose body has no token.\<close>

definition jwt_reply :: "auth_data option reply" where
  "jwt_reply = Json (Some \<lparr>data_token = Some ''jwt'', data_user = Some bot\<rparr>)"


definition lobby :: agency where
  "lobby = \<lparr>agency_id = ''r1'', slug = Some ''lobby'', agency_name = ''Lobby'', isMember = True\<rparr>"

definition fresh_agent :: world where
  "fresh_agent = ctor ''https://x/'' ''agent-token''"

text \<open>
  \<open>connectAndJoin('lobby')\<close> on a new agent, with a server that accepts the credential,
  lists the lobby, lets the channel connect and acknowledges the join.
\<close>

definition joined_lobby :: world where
  "joined_lobby =
     snd (connectAndJoin (Some ''lobby'')
            (script [jwt_reply] [Json [lobby]] []
               [(0, Connect), (0, AgencyJoined (Some ''r1'') [''bot''])] fresh_agent))"


text \<open>The joined agent when the server is about to list a second room before the lobby.\<close>

definition side_room :: agency where
  "side_room = \<lparr>agency_id = ''r2'', slug = Some ''side'', agency_name = ''Side'', isMember = False\<rparr>"

definition relisted :: world where
  "relisted = script [] [Json [side_room, lobby]] [] [] joined_lobby"

subsection \<open>The batch join, as the specification words it\<close>

text \<open>
  The identifiers are tried one after the other, each join awaited on the world the
  previous one left; a rejected join leaves a warning and the batch goes on; the record
  keeps each identifier tried with how its join ended.
\<close>

definition warn_failed :: "string \<Rightarrow> error \<Rightarrow> world \<Rightarrow> world" where
  "warn_failed x e w =
     w\<lparr>warnings := warnings w @ [(''Failed to join '' @ x @ '':'', error_message e)]\<rparr>"

fun attempts :: "string list \<Rightarrow> world \<Rightarrow> (string \<times> resolution outcome) list \<times> world" where
  "attempts [] w = ([], w)"
| "attempts (x # xs) w =
     (case join x w of
        (Returns v, w1) \<Rightarrow> (case attempts xs w1 of (rs, w2) \<Rightarrow> ((x, Returns v) # rs, w2))
      | (Throws e, w1) \<Rightarrow>
          (case attempts xs (warn_failed x e w1) of (rs, w2) \<Rightarrow> ((x, Throws e) # rs, w2))
      | (Hangs, w1) \<Rightarrow> ([(x, Hangs)], w1))"

fun returned :: "'a outcome \<Rightarrow> bool" where
  "returned (Returns _) = True"
| "returned _ = False"

fun warning_of :: "string \<times> resolution outcome \<Rightarrow> (string \<times> string) list" where
  "warning_of (x, Throws e) = [(''Failed to join '' @ x @ '':'', error_message e)]"
| "warning_of _ = []"

text \<open>The example of the specification: rooms \<open>a\<close> and \<open>c\<close> are the agent's, \<open>b\<close> is not.\<close>

definition three_rooms :: "agency list" where
  "three_rooms =
     [\<lparr>agency_id = ''ra'', slug = Some ''a'', agency_name = ''A'', isMember = True\<rparr>,
      \<lparr>agency_id = ''rb'', slug = Some ''b'', agency_name = ''B'', isMember = False\<rparr>,
      \<lparr>agency_id = ''rc'', slug = Some ''c'', agency_name = ''C'', isMember = True\<rparr>]"

text \<open>A new agent and a server that acknowledges the join of \<open>a\<close> and refuses that of \<open>c\<close>.\<close>

definition refusing_c :: world where
  "refusing_c =
     script [jwt_reply] [Json three_rooms, Json three_rooms, Json three_rooms] []
       [(0, Connect), (0, AgencyJoined (Some ''ra'') [''bot'']), (0, ErrorEvent (Some ''denied''))]
       fresh_agent"

text \<open>The same with a server that acknowledges both.\<close>

definition accepting_both :: world where
  "accepting_both =
     script [jwt_reply] [Json three_rooms, Json three_rooms, Json three_rooms] []
       [(0, Connect), (0, AgencyJoined (Some ''ra'') [''bot'']), (0, AgencyJoined (Some ''rc'') [''bot''])]
       fresh_agent"

text \<open>Every listing the server will still send is \<open>agencies\<close>.\<close>

definition listing_is :: "agency list \<Rightarrow> world \<Rightarrow> bool" where
  "listing_is agencies w = (\<forall>l. Json l \<in> set (agencies_replies w) \<longrightarrow> l = agencies)"

text \<open>
  A listing in which a room the agent is not a member of comes first and has the slug of
  one it is a member of, and a new agent with a server that sends this listing and
  acknowledges a join of the first room.
\<close>

definition same_slug_rooms :: "agency list" where
  "same_slug_rooms =
     [\<lparr>agency_id = ''r1'', slug = Some ''x'', agency_name = ''First'', isMember = False\<rparr>,
      \<lparr>agency_id = ''r2'', slug = Some ''x'', agency_name = ''Second'', isMember = True\<rparr>]"

definition ambiguous_listing :: world where
  "ambiguous_listing =
     script [jwt_reply] [Json same_slug_rooms, Json same_slug_rooms] []
       [(0, Connect), (0, AgencyJoined (Some ''r1'') [''bot''])] fresh_agent"

subsection \<open>Well-formed worlds\<close>

text \<open>
  An attached function is in order, with \<open>n\<close> promises created so far, when the promise
  it settles exists and only the closures of \<open>join\<close> are one-shot.
\<close>

fun entry_ok :: "nat \<Rightarrow> callback \<times> bool \<Rightarrow> bool" where
  "entry_ok n (User h, once) = (\<not> once)"
| "entry_ok n (ConnectResolve p, once) = (p < n \<and> \<not> once)"
| "entry_ok n (ConnectReject p, once) = (p < n \<and> \<not> once)"
| "entry_ok n (OnJoined p, once) = (p < n)"
| "entry_ok n (OnErr p, once) = (p < n)"

definition channel_ok :: "nat \<Rightarrow> channel \<Rightarrow> bool" where
  "channel_ok n c = (\<forall>ev. list_all (entry_ok n) (callbacks c ev))"

text \<open>
  A world is well formed when every channel's listeners are in order, the agent's channel
  handle refers to a channel that exists, and the registry has one entry per event.
\<close>

definition well_formed :: "world \<Rightarrow> bool" where
  "well_formed w =
     (list_all (channel_ok (length (promises w))) (sockets w) \<and>
      (\<forall>k. socket w = Some k \<longrightarrow> k < length (sockets w)) \<and>
      distinct (map fst (listeners w)))"

subsection \<open>The listeners of one join\<close>

text \<open>The entries of a listener list that are the closures of the join with promise \<open>p\<close>.\<close>

definition closures_of :: "promise \<Rightarrow> (callback \<times> bool) list \<Rightarrow> (callback \<times> bool) list" where
  "closures_of p es = filter (\<lambda>e. fst e = OnJoined p \<or> fst e = OnErr p) es"

text \<open>
  What \<open>join\<close> attaches on channel \<open>k\<close>: \<open>onJoined\<close> once for \<open>agency-joined\<close>, \<open>onErr\<close>
  once for \<open>error\<close>, nothing for any other event or on any other channel.
\<close>

definition expected :: "promise \<Rightarrow> sockref \<Rightarrow> sockref \<Rightarrow> string \<Rightarrow> (callback \<times> bool) list" where
  "expected p k j n =
     (if j = k \<and> n = ''agency-joined'' then [(OnJoined p, True)]
      else if j = k \<and> n = ''error'' then [(OnErr p, True)]
      else [])"

text \<open>The join with promise \<open>p\<close> is listening on the agent's channel \<open>k\<close>.\<close>

definition listening :: "promise \<Rightarrow> sockref \<Rightarrow> world \<Rightarrow> bool" where
  "listening p k w =
     (socket w = Some k \<and> k < length (sockets w) \<and> p < length (promises w) \<and>
      (\<forall>j n. j < length (sockets w) \<longrightarrow>
         closures_of p (callbacks (sockets w ! j) n) = expected p k j n))"



text \<open>Listener lists only lose entries from one world to the other.\<close>

definition shrinks :: "world \<Rightarrow> world \<Rightarrow> bool" where
  "shrinks w w' =
     (length (sockets w') = length (sockets w) \<and>
      (\<forall>j n. subseq (callbacks (sockets w' ! j) n) (callbacks (sockets w ! j) n)))"

text \<open>Delivering a list of events, each on its channel.\<close>

definition deliver_all :: "(sockref \<times> event) list \<Rightarrow> world \<Rightarrow> world" where
  "deliver_all evs w = fold (\<lambda>(j, e). deliver j e) evs w"










subsection \<open>Registrations and their delivery\<close>

text \<open>A sequence of \<open>on(event, handler)\<close> calls.\<close>

definition register :: "(string \<times> handler) list \<Rightarrow> world \<Rightarrow> world" where
  "register rs w = fold (\<lambda>(ev, h). on ev h) rs w"

text \<open>The handlers such a sequence registers for one event, in order.\<close>

definition registered :: "(string \<times> handler) list \<Rightarrow> string \<Rightarrow> handler list" where
  "registered rs ev = map snd (filter (\<lambda>r. fst r = ev) rs)"

text \<open>The events a server emits on a connected channel, as opposed to the channel's own
  \<open>connect\<close>, \<open>connect_error\<close> and \<open>disconnect\<close>.\<close>

fun emitted_by_server :: "event \<Rightarrow> bool" where
  "emitted_by_server Connect = False"
| "emitted_by_server (ConnectError _) = False"
| "emitted_by_server (Disconnect _) = False"
| "emitted_by_server _ = True"

text \<open>The calls an event makes to a list of handlers.\<close>

definition calls_to :: "handler list \<Rightarrow> event \<Rightarrow> (handler \<times> event) list" where
  "calls_to hs ev = map (\<lambda>h. (h, ev)) hs"

text \<open>
  Only the \<open>connect\<close> listener of channel \<open>k\<close> resolves promise \<open>p\<close>: the promise of a
  \<open>connectSocket\<close> call that opened channel \<open>k\<close>.
\<close>

definition opener_only :: "promise \<Rightarrow> sockref \<Rightarrow> world \<Rightarrow> bool" where
  "opener_only p k w =
     (\<forall>j n. j < length (sockets w) \<longrightarrow>
        (\<forall>e \<in> set (callbacks (sockets w ! j) n).
           fst e \<noteq> OnJoined p \<and> (fst e = ConnectResolve p \<longrightarrow> j = k \<and> n = ''connect'')))"

text \<open>
  The joined agent has registered handler 7 for \<open>message\<close>; the server will accept a new
  session, a second channel and a join.
\<close>

definition reconnecting :: world where
  "reconnecting =
     script [jwt_reply] [Json [lobby]] []
       [(1, Connect), (1, AgencyJoined (Some ''r1'') [''bot''])]
       (on ''message'' 7 joined_lobby)"

text \<open>It disconnects, registers handler 8 for \<open>message\<close>, and connects and joins again.\<close>

definition rejoined :: world where
  "rejoined =
     snd (connectAndJoin (Some ''lobby'') (register [(''message'', 8)] (disconnect reconnecting)))"

text \<open>A new agent registers handler 7 twice for \<open>message\<close>, then connects and joins.\<close>

definition registering_twice :: world where
  "registering_twice =
     register [(''message'', 7), (''message'', 7)]
       (script [jwt_reply] [Json [lobby]] []
          [(0, Connect), (0, AgencyJoined (Some ''r1'') [''bot''])] fresh_agent)"

definition twice_registered :: world where
  "twice_registered = snd (connectAndJoin (Some ''lobby'') registering_twice)"

section \<open>shouldRespond\<close>

lemma includes_str_sublist: "includes_str s m \<longleftrightarrow> sublist m s"
  by (induction s) (auto simp: sublist_Cons_right)


lemma shouldRespond_strings:
  assumes "opt_field msg ''content'' = JStr c" and "c \<noteq> []" and "u \<noteq> []"
  shows "shouldRespond msg (JStr u) = Inr (sublist (''@'' @ toLowerCase u) (toLowerCase c))"
  using assms by (simp add: shouldRespond_def includes_str_sublist)





section \<open>Construction and the base URL\<close>

lemma ctor_one_slash: "apiUrl (ctor ''https://x/'' tok) = ''https://x''"
  by (simp add: ctor_def strip_slash_def)

lemma strip_slash_no_slash:
  assumes "\<not> suffix ''//'' u"
  shows "strip_slash u = [] \<or> last (strip_slash u) \<noteq> CHR ''/''"
proof (cases "u \<noteq> [] \<and> last u = CHR ''/''")
  case False
  then show ?thesis by (auto simp: strip_slash_def)
next
  case True
  then obtain v where v: "u = v @ ''/''"
    by (metis append_butlast_last_id)
  then have s: "strip_slash u = v"
    by (simp add: strip_slash_def)
  show ?thesis
  proof (cases "v = []")
    case True
    with s show ?thesis by simp
  next
    case False
    then obtain v' c where v': "v = v' @ [c]"
      by (metis append_butlast_last_id)
    with v assms have "c \<noteq> CHR ''/''"
      by (auto simp: suffix_def)
    with s v' show ?thesis by simp
  qed
qed

text \<open>
  C9 at the input \<open>https://x//\<close>: the constructor removes one slash only, the stored base
  still ends with a slash, and the URL of the token exchange has a double slash where the
  path is joined to the base.
\<close>

theorem ctor_second_slash:
  "apiUrl (ctor ''https://x//'' tok) = ''https://x/'' \<and>
   map url (requests (snd (connect (ctor ''https://x//'' tok)))) = [''https://x//api/auth/agent'']"
  by (simp add: ctor_def strip_slash_def connect_def)

section \<open>send\<close>

text \<open>
  C1. In every state where the channel is absent or not connected, or no room is joined,
  \<open>send\<close> throws its precondition error and the world, with every channel's outbox and the
  list of requests, is what it was.
\<close>

theorem send_precondition:
  assumes "\<not> socket_connected w \<or> \<not> present (currentAgencyId w)"
  shows "send message_text options w =
           (Throws (Error ''Not connected or no agency joined. Call join() first.''), w)"
  using assms by (auto simp: send_def)

theorem send_precondition_witness:
  "\<not> socket_connected (ctor ''https://x/'' ''t'') \<and>
   send ''hello'' \<lparr>opt_type = None, opt_metadata = Undefined\<rparr> (ctor ''https://x/'' ''t'') =
     (Throws (Error ''Not connected or no agency joined. Call join() first.''),
      ctor ''https://x/'' ''t'')"
proof -
  have h: "\<not> socket_connected (ctor ''https://x/'' ''t'')"
    by (simp add: socket_connected_def ctor_def)
  from send_precondition [OF disjI1, OF h] h show ?thesis by blast
qed

section \<open>What the channel operations leave alone\<close>

lemmas channel_ops =
  socket_on_def socket_once_def socket_off_def socket_emit_def unwrap_once_def

lemma update_channel_fields [simp]:
  "apiUrl (update_channel k f w) = apiUrl w"
  "agentToken (update_channel k f w) = agentToken w"
  "token (update_channel k f w) = token w"
  "user (update_channel k f w) = user w"
  "socket (update_channel k f w) = socket w"
  "currentAgencyId (update_channel k f w) = currentAgencyId w"
  "listeners (update_channel k f w) = listeners w"
  "promises (update_channel k f w) = promises w"
  "requests (update_channel k f w) = requests w"
  "warnings (update_channel k f w) = warnings w"
  "calls (update_channel k f w) = calls w"
  "auth_replies (update_channel k f w) = auth_replies w"
  "agencies_replies (update_channel k f w) = agencies_replies w"
  "messages_replies (update_channel k f w) = messages_replies w"
  "inbox (update_channel k f w) = inbox w"
  "length (sockets (update_channel k f w)) = length (sockets w)"
  by (simp_all add: update_channel_def)

lemma nth_update_channel:
  "sockets (update_channel k f w) ! j =
     (if j = k \<and> k < length (sockets w) then f (sockets w ! k) else sockets w ! j)"
  by (simp add: update_channel_def)

lemma promise_state_update_channel [simp]:
  "promise_state (update_channel k f w) p = promise_state w p"
  by (simp add: promise_state_def)

lemma settle_fields [simp]:
  "apiUrl (settle p v w) = apiUrl w"
  "agentToken (settle p v w) = agentToken w"
  "token (settle p v w) = token w"
  "user (settle p v w) = user w"
  "socket (settle p v w) = socket w"
  "currentAgencyId (settle p v w) = currentAgencyId w"
  "listeners (settle p v w) = listeners w"
  "sockets (settle p v w) = sockets w"
  "requests (settle p v w) = requests w"
  "warnings (settle p v w) = warnings w"
  "calls (settle p v w) = calls w"
  "auth_replies (settle p v w) = auth_replies w"
  "agencies_replies (settle p v w) = agencies_replies w"
  "messages_replies (settle p v w) = messages_replies w"
  "inbox (settle p v w) = inbox w"
  "length (promises (settle p v w)) = length (promises w)"
  by (simp_all add: settle_def)

lemma promise_state_settle:
  "promise_state (settle p v w) q =
     (if q = p \<and> p < length (promises w) \<and> promise_state w p = Unsettled then v
      else promise_state w q)"
  by (auto simp: settle_def promise_state_def)

lemma invoke_fields [simp]:
  "apiUrl (snd (invoke f ev w)) = apiUrl w"
  "agentToken (snd (invoke f ev w)) = agentToken w"
  "token (snd (invoke f ev w)) = token w"
  "user (snd (invoke f ev w)) = user w"
  "socket (snd (invoke f ev w)) = socket w"
  "listeners (snd (invoke f ev w)) = listeners w"
  "requests (snd (invoke f ev w)) = requests w"
  "warnings (snd (invoke f ev w)) = warnings w"
  "auth_replies (snd (invoke f ev w)) = auth_replies w"
  "agencies_replies (snd (invoke f ev w)) = agencies_replies w"
  "messages_replies (snd (invoke f ev w)) = messages_replies w"
  "inbox (snd (invoke f ev w)) = inbox w"
  "length (sockets (snd (invoke f ev w))) = length (sockets w)"
  "length (promises (snd (invoke f ev w))) = length (promises w)"
  by (cases f; simp add: channel_ops Let_def split: prod.splits option.splits; fail)+

lemma dispatch_Cons:
  "dispatch k ev ((f, once) # es) w =
     (if fst (invoke f ev (if once then unwrap_once k (event_name ev) f w else w))
      then snd (invoke f ev (if once then unwrap_once k (event_name ev) f w else w))
      else dispatch k ev es (snd (invoke f ev (if once then unwrap_once k (event_name ev) f w else w))))"
  by (simp add: Let_def split: prod.splits)

declare dispatch.simps(2) [simp del]

lemma dispatch_preserves:
  assumes "\<And>f w. g (snd (invoke f ev w)) = g w"
    and "\<And>f w. g (unwrap_once k (event_name ev) f w) = g w"
  shows "g (dispatch k ev es w) = g w"
proof (induction es arbitrary: w)
  case Nil
  show ?case by simp
next
  case (Cons e es)
  obtain f once where e: "e = (f, once)" by (cases e)
  show ?case
    unfolding e dispatch_Cons by (simp add: assms Cons.IH)
qed

lemma dispatch_fields [simp]:
  "apiUrl (dispatch k ev es w) = apiUrl w"
  "agentToken (dispatch k ev es w) = agentToken w"
  "token (dispatch k ev es w) = token w"
  "user (dispatch k ev es w) = user w"
  "socket (dispatch k ev es w) = socket w"
  "listeners (dispatch k ev es w) = listeners w"
  "requests (dispatch k ev es w) = requests w"
  "warnings (dispatch k ev es w) = warnings w"
  "auth_replies (dispatch k ev es w) = auth_replies w"
  "agencies_replies (dispatch k ev es w) = agencies_replies w"
  "messages_replies (dispatch k ev es w) = messages_replies w"
  "inbox (dispatch k ev es w) = inbox w"
  "length (sockets (dispatch k ev es w)) = length (sockets w)"
  "length (promises (dispatch k ev es w)) = length (promises w)"
  by (rule dispatch_preserves; simp add: unwrap_once_def; fail)+

lemma deliver_preserves:
  assumes "\<And>f w. g (snd (invoke f ev w)) = g w"
    and "\<And>f w. g (unwrap_once k (event_name ev) f w) = g w"
    and "\<And>w. g (update_channel k (arrive ev) w) = g w"
  shows "g (deliver k ev w) = g w"
  by (simp add: deliver_def dispatch_preserves [where g = g] assms)

lemma deliver_fields [simp]:
  "apiUrl (deliver k ev w) = apiUrl w"
  "agentToken (deliver k ev w) = agentToken w"
  "token (deliver k ev w) = token w"
  "user (deliver k ev w) = user w"
  "socket (deliver k ev w) = socket w"
  "listeners (deliver k ev w) = listeners w"
  "requests (deliver k ev w) = requests w"
  "warnings (deliver k ev w) = warnings w"
  "auth_replies (deliver k ev w) = auth_replies w"
  "agencies_replies (deliver k ev w) = agencies_replies w"
  "messages_replies (deliver k ev w) = messages_replies w"
  "inbox (deliver k ev w) = inbox w"
  "length (sockets (deliver k ev w)) = length (sockets w)"
  "length (promises (deliver k ev w)) = length (promises w)"
  by (rule deliver_preserves; simp add: unwrap_once_def; fail)+

lemma run_inbox_preserves:
  assumes "\<And>k ev w. g (deliver k ev w) = g w"
    and "\<And>w i. g (w\<lparr>inbox := i\<rparr>) = g w"
  shows "g (run_inbox p i w) = g w"
proof (induction i arbitrary: w)
  case Nil
  show ?case by (simp add: assms)
next
  case (Cons e i)
  obtain k ev where e: "e = (k, ev)" by (cases e)
  show ?case by (simp add: e assms Cons.IH)
qed

lemma run_inbox_fields [simp]:
  "apiUrl (run_inbox p i w) = apiUrl w"
  "agentToken (run_inbox p i w) = agentToken w"
  "token (run_inbox p i w) = token w"
  "user (run_inbox p i w) = user w"
  "socket (run_inbox p i w) = socket w"
  "listeners (run_inbox p i w) = listeners w"
  "requests (run_inbox p i w) = requests w"
  "warnings (run_inbox p i w) = warnings w"
  "auth_replies (run_inbox p i w) = auth_replies w"
  "agencies_replies (run_inbox p i w) = agencies_replies w"
  "messages_replies (run_inbox p i w) = messages_replies w"
  "length (sockets (run_inbox p i w)) = length (sockets w)"
  "length (promises (run_inbox p i w)) = length (promises w)"
  by (rule run_inbox_preserves; simp; fail)+

lemma await_preserves:
  assumes "\<And>k ev w. g (deliver k ev w) = g w"
    and "\<And>w i. g (w\<lparr>inbox := i\<rparr>) = g w"
  shows "g (snd (await p w)) = g w"
  by (simp add: await_def Let_def run_inbox_preserves [where g = g] assms split: settled.splits)

lemma await_fields [simp]:
  "apiUrl (snd (await p w)) = apiUrl w"
  "agentToken (snd (await p w)) = agentToken w"
  "token (snd (await p w)) = token w"
  "user (snd (await p w)) = user w"
  "socket (snd (await p w)) = socket w"
  "listeners (snd (await p w)) = listeners w"
  "requests (snd (await p w)) = requests w"
  "warnings (snd (await p w)) = warnings w"
  "auth_replies (snd (await p w)) = auth_replies w"
  "agencies_replies (snd (await p w)) = agencies_replies w"
  "messages_replies (snd (await p w)) = messages_replies w"
  "length (sockets (snd (await p w))) = length (sockets w)"
  "length (promises (snd (await p w))) = length (promises w)"
  by (rule await_preserves; simp; fail)+

subsection \<open>Sequencing\<close>

lemma and_then_Returns [simp]: "and_then (Returns x, w) f = f x w"
  and and_then_Throws [simp]: "and_then (Throws e, w) f = (Throws e, w)"
  and and_then_Hangs [simp]: "and_then (Hangs, w) f = (Hangs, w)"
  by (simp_all add: and_then_def)

lemma and_then_cases:
  obtains (returns) x w1 where "m = (Returns x, w1)" "and_then m f = f x w1"
  | (throws) e w1 where "m = (Throws e, w1)" "and_then m f = (Throws e, w1)"
  | (hangs) w1 where "m = (Hangs, w1)" "and_then m f = (Hangs, w1)"
proof (cases m)
  case (Pair r w1)
  then show ?thesis
    by (cases r) (auto intro: returns throws hangs)
qed

lemma and_then_preserves:
  assumes "g (snd m) = g w" and "\<And>x w1. g (snd (f x w1)) = g w1"
  shows "g (snd (and_then m f)) = g w"
  using assms by (cases m f rule: and_then_cases) auto

lemma and_then_invariant:
  assumes "P (snd m)" and "\<And>x w1. m = (Returns x, w1) \<Longrightarrow> P w1 \<Longrightarrow> P (snd (f x w1))"
  shows "P (snd (and_then m f))"
  using assms by (cases m f rule: and_then_cases) auto

lemma and_then_ReturnsE:
  assumes "and_then m f = (Returns y, w')"
  obtains x w1 where "m = (Returns x, w1)" and "f x w1 = (Returns y, w')"
  using assms by (cases m f rule: and_then_cases) auto

lemma and_then_relation:
  assumes "R w (snd m)"
    and "\<And>x w1. m = (Returns x, w1) \<Longrightarrow> R w1 (snd (f x w1))"
    and "\<And>a b c. R a b \<Longrightarrow> R b c \<Longrightarrow> R a c"
  shows "R w (snd (and_then m f))"
  using assms(1,2) by (cases m f rule: and_then_cases) (auto intro: assms(3))

lemma channel_op_fields [simp]:
  "apiUrl (socket_on k ev f w) = apiUrl w"
  "token (socket_on k ev f w) = token w"
  "socket (socket_on k ev f w) = socket w"
  "currentAgencyId (socket_on k ev f w) = currentAgencyId w"
  "listeners (socket_on k ev f w) = listeners w"
  "promises (socket_on k ev f w) = promises w"
  "requests (socket_on k ev f w) = requests w"
  "warnings (socket_on k ev f w) = warnings w"
  "calls (socket_on k ev f w) = calls w"
  "inbox (socket_on k ev f w) = inbox w"
  "length (sockets (socket_on k ev f w)) = length (sockets w)"
  "promise_state (socket_on k ev f w) p = promise_state w p"
  "apiUrl (socket_once k ev f w) = apiUrl w"
  "token (socket_once k ev f w) = token w"
  "socket (socket_once k ev f w) = socket w"
  "currentAgencyId (socket_once k ev f w) = currentAgencyId w"
  "listeners (socket_once k ev f w) = listeners w"
  "promises (socket_once k ev f w) = promises w"
  "requests (socket_once k ev f w) = requests w"
  "warnings (socket_once k ev f w) = warnings w"
  "calls (socket_once k ev f w) = calls w"
  "inbox (socket_once k ev f w) = inbox w"
  "length (sockets (socket_once k ev f w)) = length (sockets w)"
  "promise_state (socket_once k ev f w) p = promise_state w p"
  "apiUrl (socket_off k ev f w) = apiUrl w"
  "token (socket_off k ev f w) = token w"
  "socket (socket_off k ev f w) = socket w"
  "currentAgencyId (socket_off k ev f w) = currentAgencyId w"
  "listeners (socket_off k ev f w) = listeners w"
  "promises (socket_off k ev f w) = promises w"
  "requests (socket_off k ev f w) = requests w"
  "warnings (socket_off k ev f w) = warnings w"
  "calls (socket_off k ev f w) = calls w"
  "inbox (socket_off k ev f w) = inbox w"
  "length (sockets (socket_off k ev f w)) = length (sockets w)"
  "promise_state (socket_off k ev f w) p = promise_state w p"
  "apiUrl (socket_emit k m w) = apiUrl w"
  "token (socket_emit k m w) = token w"
  "socket (socket_emit k m w) = socket w"
  "currentAgencyId (socket_emit k m w) = currentAgencyId w"
  "listeners (socket_emit k m w) = listeners w"
  "promises (socket_emit k m w) = promises w"
  "requests (socket_emit k m w) = requests w"
  "warnings (socket_emit k m w) = warnings w"
  "calls (socket_emit k m w) = calls w"
  "inbox (socket_emit k m w) = inbox w"
  "length (sockets (socket_emit k m w)) = length (sockets w)"
  "promise_state (socket_emit k m w) p = promise_state w p"
  "apiUrl (unwrap_once k ev f w) = apiUrl w"
  "token (unwrap_once k ev f w) = token w"
  "socket (unwrap_once k ev f w) = socket w"
  "currentAgencyId (unwrap_once k ev f w) = currentAgencyId w"
  "listeners (unwrap_once k ev f w) = listeners w"
  "promises (unwrap_once k ev f w) = promises w"
  "requests (unwrap_once k ev f w) = requests w"
  "warnings (unwrap_once k ev f w) = warnings w"
  "calls (unwrap_once k ev f w) = calls w"
  "inbox (unwrap_once k ev f w) = inbox w"
  "length (sockets (unwrap_once k ev f w)) = length (sockets w)"
  "promise_state (unwrap_once k ev f w) p = promise_state w p"
  by (simp_all add: channel_ops)

lemma promise_state_fields [simp]:
  "promise_state (w\<lparr>currentAgencyId := a\<rparr>) p = promise_state w p"
  "promise_state (w\<lparr>calls := cs\<rparr>) p = promise_state w p"
  "promise_state (w\<lparr>inbox := i\<rparr>) p = promise_state w p"
  by (simp_all add: promise_state_def)

section \<open>The running example, evaluated\<close>

lemmas agent_defs =
  joined_lobby_def fresh_agent_def ctor_def script_def connectAndJoin_def connect_def
  connectSocket_def open_socket_def ensure_token_def await_def join_def join_request_def
  getAgencies_def attach_listeners_def deliver_def admits_def arrive_def
  socket_on_def socket_once_def socket_off_def socket_emit_def unwrap_once_def update_channel_def
  settle_def promise_state_def present_def or_else_def socket_connected_def strip_slash_def
  lobby_def jwt_reply_def dispatch_Cons Let_def

lemmas step_defs =
  script_def connectAndJoin_def connect_def
  connectSocket_def open_socket_def ensure_token_def await_def join_def join_request_def
  getAgencies_def attach_listeners_def deliver_def admits_def arrive_def
  socket_on_def socket_once_def socket_off_def socket_emit_def unwrap_once_def update_channel_def
  settle_def promise_state_def present_def or_else_def socket_connected_def strip_slash_def
  lobby_def jwt_reply_def dispatch_Cons Let_def

lemma joined_lobby_value:
  "joined_lobby =
     \<lparr>apiUrl = ''https://x'', agentToken = ''agent-token'', token = Some ''jwt'',
        user = Some bot, socket = Some 0, currentAgencyId = Some ''r1'', listeners = [],
        sockets =
          [\<lparr>uri = ''https://x'', auth = Some ''jwt'', connected = True, closed = False,
              callbacks =
                (\<lambda>_. [])
                (''connect'' := [(ConnectResolve 0, False)],
                 ''connect_error'' := [(ConnectReject 0, False)],
                 ''agency-joined'' := [], ''error'' := []),
              outbox = [JoinAgency ''r1'']\<rparr>],
        promises = [Resolved (Opened (Some 0)), Resolved (Joined (Some ''r1'') [''bot''])],
        requests =
          [\<lparr>http_method = ''POST'', url = ''https://x/api/auth/agent'', query = [],
              bearer = None, body = Some ''agent-token''\<rparr>,
           \<lparr>http_method = ''GET'', url = ''https://x/api/agencies'', query = [],
              bearer = Some ''jwt'', body = None\<rparr>],
        warnings = [], calls = [], auth_replies = [], agencies_replies = [],
        messages_replies = [], inbox = []\<rparr>"
  by (simp add: agent_defs)

lemma reachable_joined_lobby: "reachable joined_lobby"
  unfolding joined_lobby_def fresh_agent_def
  by (intro reachable.connectAndJoin reachable.server reachable.constructed)

lemma joined_lobby_fields:
  "token joined_lobby = Some ''jwt''"
  "currentAgencyId joined_lobby = Some ''r1''"
  "socket joined_lobby = Some 0"
  "length (sockets joined_lobby) = 1"
  "requests joined_lobby =
     [\<lparr>http_method = ''POST'', url = ''https://x/api/auth/agent'', query = [],
        bearer = None, body = Some ''agent-token''\<rparr>,
      \<lparr>http_method = ''GET'', url = ''https://x/api/agencies'', query = [],
        bearer = Some ''jwt'', body = None\<rparr>]"
  by (simp_all add: joined_lobby_value)

lemma joined_lobby_channel:
  "listeners joined_lobby = []"
  "connected (sockets joined_lobby ! 0)"
  "\<not> closed (sockets joined_lobby ! 0)"
  "callbacks (sockets joined_lobby ! 0) ''message'' = []"
  "callbacks (sockets joined_lobby ! 0) ''agency-joined'' = []"
  "callbacks (sockets joined_lobby ! 0) ''error'' = []"
  "outbox (sockets joined_lobby ! 0) = [JoinAgency ''r1'']"
  by (simp_all add: joined_lobby_value)


lemma relisted_fields:
  "socket_connected relisted"
  "socket relisted = Some 0"
  "outboxes relisted = [[JoinAgency ''r1'']]"
  "fst (getAgencies relisted) = Returns [side_room, lobby]"
  by (simp_all add: relisted_def outboxes_def joined_lobby_value step_defs)


section \<open>The session credential\<close>


lemma credential_inv_cong:
  "token w' = token w \<Longrightarrow> currentAgencyId w' = currentAgencyId w \<Longrightarrow> sockets w' = sockets w \<Longrightarrow>
   auth_replies w' = auth_replies w \<Longrightarrow> credential_inv w' = credential_inv w"
  by (simp add: credential_inv_def)




lemma set_remove_first: "set (remove_first f es) \<subseteq> set es"
  by (induction es) auto





lemma credential_inv_settle [simp]: "credential_inv (settle p v w) = credential_inv w"
  by (rule credential_inv_cong) simp_all




lemma credential_inv_inbox [simp]: "credential_inv (w\<lparr>inbox := i\<rparr>) = credential_inv w"
  by (rule credential_inv_cong) simp_all



lemma connect_issues:
  "issues_tokens (auth_replies w) \<Longrightarrow> issues_tokens (auth_replies (snd (connect w)))"
  by (auto simp: connect_def Let_def issues_tokens_def
      split: list.splits reply.splits error_body.splits option.splits)










lemma credential_inv_warnings [simp]: "credential_inv (w\<lparr>warnings := ws\<rparr>) = credential_inv w"
  by (rule credential_inv_cong) simp_all




lemma credential_inv_listeners [simp]: "credential_inv (w\<lparr>listeners := ls\<rparr>) = credential_inv w"
  by (rule credential_inv_cong) simp_all











lemma reachable_issuing_reachable: "reachable_issuing w \<Longrightarrow> reachable w"
  by (induction rule: reachable_issuing.induct) (auto intro: reachable.intros)






section \<open>getRecentMessages\<close>

lemma connect_requests:
  "\<exists>r. requests (snd (connect w)) = requests w @ [r] \<and> http_method r = ''POST''"
  by (simp add: connect_def Let_def split: list.splits reply.splits error_body.splits option.splits)

lemma ensure_token_requests:
  "\<exists>rs. requests (snd (ensure_token w)) = requests w @ rs \<and>
        list_all (\<lambda>r. http_method r = ''POST'') rs"
proof (cases "present (token w)")
  case True
  then show ?thesis by (simp add: ensure_token_def)
next
  case False
  obtain r where "requests (snd (connect w)) = requests w @ [r]" "http_method r = ''POST''"
    using connect_requests by blast
  moreover have "requests (snd (ensure_token w)) = requests (snd (connect w))"
    using False by (simp add: ensure_token_def and_then_preserves)
  ultimately show ?thesis by simp
qed

text \<open>
  C7. Whatever the options and the state, every request for messages that the call issues
  carries \<open>min(limit, 100)\<close> as its \<open>limit\<close> parameter, with 50 for an omitted limit.
  With a credential and a current room the call issues exactly that one request.
\<close>

theorem getRecentMessages_limit:
  "list_all (\<lambda>r. http_method r = ''GET'' \<longrightarrow>
              map_of (query r) ''limit'' =
                Some (QNum (min (case limit opts of None \<Rightarrow> 50 | Some l \<Rightarrow> l) 100)))
     (drop (length (requests w)) (requests (snd (getRecentMessages opts w)))) \<and>
   (present (token w) \<and> present (currentAgencyId w) \<longrightarrow>
     (\<exists>r. requests (snd (getRecentMessages opts w)) = requests w @ [r] \<and>
          http_method r = ''GET'' \<and>
          url r = apiUrl w @ ''/api/agencies/'' @ the (currentAgencyId w) @ ''/messages'' \<and>
          hd (query r) = (''limit'', QNum (min (case limit opts of None \<Rightarrow> 50 | Some l \<Rightarrow> l) 100))))"
proof
  define P where "P = (\<lambda>r :: request. http_method r = ''GET'' \<longrightarrow>
      map_of (query r) ''limit'' = Some (QNum (min (case limit opts of None \<Rightarrow> 50 | Some l \<Rightarrow> l) 100)))"
  define R where "R = (\<lambda>(a :: world) (b :: world). \<exists>rs. requests b = requests a @ rs \<and> list_all P rs)"
  have "R w (snd (getRecentMessages opts w))"
    unfolding getRecentMessages_def
  proof (rule and_then_relation [where R = R])
    show "R w (snd (ensure_token w))"
      using ensure_token_requests [of w] by (auto simp: R_def P_def list_all_iff)
  next
    fix a b c
    assume "R a b" and "R b c"
    then show "R a c" by (auto simp: R_def)
  next
    fix u w1
    show "R w1 (snd (
       if \<not> present (currentAgencyId w1)
       then (Throws (Error ''No agency joined. Call join() first.''), w1)
       else
         let params =
               [(''limit'', QNum (min (case limit opts of None \<Rightarrow> 50 | Some l \<Rightarrow> l) 100))] @
               (if present (before opts) then [(''before'', QStr (or_else (before opts) []))] else []) @
               (if present (mentions opts) then [(''mentions'', QStr (or_else (mentions opts) []))] else []);
             w2 = w1\<lparr>requests := requests w1 @
                    [\<lparr>http_method = ''GET'',
                      url = apiUrl w1 @ ''/api/agencies/'' @ or_else (currentAgencyId w1) [] @ ''/messages'',
                      query = params, bearer = token w1, body = None\<rparr>]\<rparr>
         in case messages_replies w2 of
              [] \<Rightarrow> (Hangs, w2)
            | r # rs \<Rightarrow>
                (let w3 = w2\<lparr>messages_replies := rs\<rparr>
                 in case r of
                      Fails e \<Rightarrow> (Throws e, w3)
                    | Status st err \<Rightarrow> (Throws (Error (''Failed to fetch messages: '' @ show_nat st)), w3)
                    | Json ms \<Rightarrow> (Returns ms, w3))))"
      by (simp add: R_def P_def Let_def split: list.splits reply.splits)
  qed
  then show "list_all P (drop (length (requests w)) (requests (snd (getRecentMessages opts w))))"
    by (auto simp: R_def)
next
  show "present (token w) \<and> present (currentAgencyId w) \<longrightarrow>
     (\<exists>r. requests (snd (getRecentMessages opts w)) = requests w @ [r] \<and>
          http_method r = ''GET'' \<and>
          url r = apiUrl w @ ''/api/agencies/'' @ the (currentAgencyId w) @ ''/messages'' \<and>
          hd (query r) = (''limit'', QNum (min (case limit opts of None \<Rightarrow> 50 | Some l \<Rightarrow> l) 100)))"
    by (simp add: getRecentMessages_def ensure_token_def Let_def present_def or_else_def
             split: list.splits reply.splits option.splits)
qed
theorem getRecentMessages_limit_witness:
  "present (token joined_lobby) \<and> present (currentAgencyId joined_lobby) \<and>
   (\<exists>r. requests (snd (getRecentMessages \<lparr>limit = Some 500, before = None, mentions = None\<rparr> joined_lobby)) =
          requests joined_lobby @ [r] \<and>
        http_method r = ''GET'' \<and>
        url r = ''https://x/api/agencies/r1/messages'' \<and>
        hd (query r) = (''limit'', QNum 100))"
proof -
  have p: "present (token joined_lobby) \<and> present (currentAgencyId joined_lobby)"
    by (simp add: joined_lobby_fields present_def)
  have u: "apiUrl joined_lobby = ''https://x''"
    by (simp add: joined_lobby_value)
  from getRecentMessages_limit [of "\<lparr>limit = Some 500, before = None, mentions = None\<rparr>" joined_lobby] p
  have "\<exists>r. requests (snd (getRecentMessages \<lparr>limit = Some 500, before = None, mentions = None\<rparr> joined_lobby)) =
          requests joined_lobby @ [r] \<and>
        http_method r = ''GET'' \<and>
        url r = apiUrl joined_lobby @ ''/api/agencies/'' @ the (currentAgencyId joined_lobby) @ ''/messages'' \<and>
        hd (query r) = (''limit'', QNum (min (case limit \<lparr>limit = Some 500, before = None, mentions = None\<rparr> of None \<Rightarrow> 50 | Some l \<Rightarrow> l) 100))"
    by blast
  then show ?thesis
    using p by (simp add: u joined_lobby_fields(2))
qed

section \<open>The listener registry\<close>

lemma map_of_push_handler:
  "map_of (push_handler ev h ls) e =
     (if e = ev then Some ((case map_of ls ev of None \<Rightarrow> [] | Some hs \<Rightarrow> hs) @ [h]) else map_of ls e)"
  by (induction ls) auto

lemma map_of_splice_handler:
  "map_of (splice_handler ev h ls) e =
     (if e = ev then map_option (remove1 h) (map_of ls ev) else map_of ls e)"
  by (induction ls) auto

lemma keys_splice_handler: "map fst (splice_handler ev h ls) = map fst ls"
  by (induction ls) auto

lemma handlers_of_on:
  "handlers_of (on ev h w) e = (if e = ev then handlers_of w e @ [h] else handlers_of w e)"
  by (simp add: handlers_of_def on_def Let_def socket_on_def map_of_push_handler split: option.splits)

lemma handlers_of_off:
  "handlers_of (off ev h w) e = (if e = ev then remove1 h (handlers_of w e) else handlers_of w e)"
  by (simp add: handlers_of_def off_def Let_def socket_off_def map_of_splice_handler split: option.splits)

lemma user_of_remove_first:
  "concat (map user_of (remove_first (User h) es)) = remove1 h (concat (map user_of es))"
proof (induction es)
  case Nil
  then show ?case by simp
next
  case (Cons e es)
  obtain f b where e: "e = (f, b)" by (cases e)
  with Cons show ?case by (cases f) auto
qed

lemma on_fields [simp]:
  "socket (on ev h w) = socket w"
  "length (sockets (on ev h w)) = length (sockets w)"
  "calls (on ev h w) = calls w"
  by (simp_all add: on_def Let_def socket_on_def split: option.splits)

lemma off_fields [simp]:
  "socket (off ev h w) = socket w"
  "length (sockets (off ev h w)) = length (sockets w)"
  "calls (off ev h w) = calls w"
  by (simp_all add: off_def Let_def socket_off_def split: option.splits)

lemma attached_on:
  assumes "socket w = Some k" and "k < length (sockets w)"
  shows "attached (sockets (on ev h w) ! k) e =
           (if e = ev then attached (sockets w ! k) e @ [h] else attached (sockets w ! k) e)"
  using assms by (simp add: on_def Let_def socket_on_def nth_update_channel attached_def)

lemma attached_off:
  assumes "socket w = Some k" and "k < length (sockets w)"
  shows "attached (sockets (off ev h w) ! k) e =
           (if e = ev then remove1 h (attached (sockets w ! k) e) else attached (sockets w ! k) e)"
  using assms
  by (simp add: off_def Let_def socket_off_def nth_update_channel attached_def user_of_remove_first)

lemma admits_callbacks [simp]: "admits (c\<lparr>callbacks := cs\<rparr>) ev = admits c ev"
  by (simp add: admits_def split: event.splits)

lemma admits_on_off:
  assumes "socket w = Some k" and "k < length (sockets w)"
  shows "admits (sockets (on ev h w) ! k) e = admits (sockets w ! k) e"
    and "admits (sockets (off ev h w) ! k) e = admits (sockets w ! k) e"
  using assms
  by (simp_all add: on_def off_def Let_def socket_on_def socket_off_def nth_update_channel)

lemma count_remove1_twice: "count_list (remove1 h (hs @ [h, h])) h = Suc (count_list hs h)"
  by (induction hs) auto

text \<open>
  An event reaches every handler attached for its name, once per attachment and in
  order, as long as no listener throws (none does while the agent has a channel).
\<close>

lemma invoke_calls:
  "calls (snd (invoke f ev w)) = calls w @ map (\<lambda>h. (h, ev)) (user_of (f, b))"
  by (cases f) (simp_all add: Let_def socket_off_def split: prod.splits option.splits)

lemma invoke_no_throw: "socket w \<noteq> None \<Longrightarrow> \<not> fst (invoke f ev w)"
  by (cases f) (auto simp: Let_def split: prod.splits)

lemma dispatch_calls:
  assumes "socket w \<noteq> None"
  shows "calls (dispatch k ev es w) = calls w @ map (\<lambda>h. (h, ev)) (concat (map user_of es))"
  using assms
proof (induction es arbitrary: w)
  case Nil
  then show ?case by simp
next
  case (Cons e es)
  obtain f once where e: "e = (f, once)" by (cases e)
  define w1 where "w1 = (if once then unwrap_once k (event_name ev) f w else w)"
  have s1: "socket w1 \<noteq> None" "calls w1 = calls w"
    using Cons.prems by (simp_all add: w1_def unwrap_once_def)
  then have "dispatch k ev (e # es) w = dispatch k ev es (snd (invoke f ev w1))"
    by (simp add: e dispatch_Cons w1_def invoke_no_throw)
  moreover have "socket (snd (invoke f ev w1)) \<noteq> None"
    using s1 by simp
  ultimately show ?case
    using Cons.IH [of "snd (invoke f ev w1)"] s1 invoke_calls [of f ev w1 once]
    by (simp add: e)
qed

lemma deliver_calls:
  assumes "socket w \<noteq> None" and "k < length (sockets w)" and "admits (sockets w ! k) ev"
  shows "calls (deliver k ev w) =
           calls w @ map (\<lambda>h. (h, ev)) (attached (sockets w ! k) (event_name ev))"
  using assms by (simp add: deliver_def dispatch_calls attached_def)

lemma count_list_map_pair: "count_list (map (\<lambda>h. (h, ev)) hs) (h, ev) = count_list hs h"
  by (induction hs) auto

text \<open>
  C8. \<open>off\<close> keeps the registry's events, and takes the first occurrence of the handler
  out of the event's list (\<open>remove1\<close>), leaving the other entries and the other events as
  they are; on a live channel it detaches the first attachment in the same way. After two
  \<open>on\<close> and one \<open>off\<close> of a handler its registrations have grown by exactly one, and an
  event of that name delivered on the live channel calls it once more than it was attached
  before: once, for a handler that was new.
\<close>

theorem off_removes_first:
  "map fst (listeners (off ev h w)) = map fst (listeners w) \<and>
   (\<forall>e. handlers_of (off ev h w) e =
          (if e = ev then remove1 h (handlers_of w e) else handlers_of w e)) \<and>
   (\<forall>k e. socket w = Some k \<and> k < length (sockets w) \<longrightarrow>
      attached (sockets (off ev h w) ! k) e =
        (if e = ev then remove1 h (attached (sockets w ! k) e) else attached (sockets w ! k) e)) \<and>
   count_list (handlers_of (off ev h (on ev h (on ev h w))) ev) h =
     Suc (count_list (handlers_of w ev) h) \<and>
   (\<forall>k e. socket w = Some k \<and> k < length (sockets w) \<and> admits (sockets w ! k) e \<and>
          event_name e = ev \<longrightarrow>
      count_list (drop (length (calls w))
                   (calls (deliver k e (off ev h (on ev h (on ev h w)))))) (h, e) =
        Suc (count_list (attached (sockets w ! k) ev) h))"
proof (intro conjI allI impI)
  show "map fst (listeners (off ev h w)) = map fst (listeners w)"
    by (simp add: off_def Let_def socket_off_def keys_splice_handler split: option.splits)
next
  fix e
  show "handlers_of (off ev h w) e =
          (if e = ev then remove1 h (handlers_of w e) else handlers_of w e)"
    by (rule handlers_of_off)
next
  fix k e
  assume "socket w = Some k \<and> k < length (sockets w)"
  then show "attached (sockets (off ev h w) ! k) e =
        (if e = ev then remove1 h (attached (sockets w ! k) e) else attached (sockets w ! k) e)"
    by (simp add: attached_off)
next
  show "count_list (handlers_of (off ev h (on ev h (on ev h w))) ev) h =
     Suc (count_list (handlers_of w ev) h)"
    by (simp add: handlers_of_on handlers_of_off count_remove1_twice)
next
  fix k e
  assume a: "socket w = Some k \<and> k < length (sockets w) \<and> admits (sockets w ! k) e \<and>
          event_name e = ev"
  define w3 where "w3 = off ev h (on ev h (on ev h w))"
  have s: "socket w3 = Some k" "k < length (sockets w3)" "calls w3 = calls w"
    using a by (simp_all add: w3_def)
  have adm: "admits (sockets w3 ! k) e"
    using a by (simp add: w3_def admits_on_off)
  have att: "attached (sockets w3 ! k) ev = remove1 h (attached (sockets w ! k) ev @ [h, h])"
    using a by (simp add: w3_def attached_on attached_off)
  have "calls (deliver k e w3) = calls w @ map (\<lambda>h'. (h', e)) (attached (sockets w3 ! k) ev)"
    using deliver_calls [of w3 k e] s adm a by simp
  then show "count_list (drop (length (calls w))
                   (calls (deliver k e (off ev h (on ev h (on ev h w)))))) (h, e) =
        Suc (count_list (attached (sockets w ! k) ev) h)"
    by (simp add: w3_def [symmetric] att count_list_map_pair count_remove1_twice)
qed

theorem off_removes_first_witness:
  "socket joined_lobby = Some 0 \<and> 0 < length (sockets joined_lobby) \<and>
   admits (sockets joined_lobby ! 0) (Other ''message'' ''hi'') \<and>
   event_name (Other ''message'' ''hi'') = ''message'' \<and>
   count_list (handlers_of (off ''message'' 7 (on ''message'' 7 (on ''message'' 7 joined_lobby)))
      ''message'') 7 = 1 \<and>
   count_list
     (drop (length (calls joined_lobby))
        (calls (deliver 0 (Other ''message'' ''hi'')
                  (off ''message'' 7 (on ''message'' 7 (on ''message'' 7 joined_lobby))))))
     (7, Other ''message'' ''hi'') = 1"
proof -
  have h: "socket joined_lobby = Some 0 \<and> 0 < length (sockets joined_lobby) \<and>
           admits (sockets joined_lobby ! 0) (Other ''message'' ''hi'') \<and>
           event_name (Other ''message'' ''hi'') = ''message''"
    by (simp add: joined_lobby_fields joined_lobby_channel admits_def)
  have z: "handlers_of joined_lobby ''message'' = []" "attached (sockets joined_lobby ! 0) ''message'' = []"
    by (simp_all add: handlers_of_def attached_def joined_lobby_channel)
  from off_removes_first [of "''message''" 7 joined_lobby] h z show ?thesis
    by simp
qed

section \<open>join\<close>

lemma connect_fields [simp]:
  "apiUrl (snd (connect w)) = apiUrl w"
  "socket (snd (connect w)) = socket w"
  "sockets (snd (connect w)) = sockets w"
  "promises (snd (connect w)) = promises w"
  "listeners (snd (connect w)) = listeners w"
  "currentAgencyId (snd (connect w)) = currentAgencyId w"
  "calls (snd (connect w)) = calls w"
  "warnings (snd (connect w)) = warnings w"
  "inbox (snd (connect w)) = inbox w"
  by (simp_all add: connect_def Let_def split: list.splits reply.splits error_body.splits option.splits)

lemma ensure_token_fields [simp]:
  "apiUrl (snd (ensure_token w)) = apiUrl w"
  "socket (snd (ensure_token w)) = socket w"
  "sockets (snd (ensure_token w)) = sockets w"
  "promises (snd (ensure_token w)) = promises w"
  "listeners (snd (ensure_token w)) = listeners w"
  "currentAgencyId (snd (ensure_token w)) = currentAgencyId w"
  "calls (snd (ensure_token w)) = calls w"
  "warnings (snd (ensure_token w)) = warnings w"
  "inbox (snd (ensure_token w)) = inbox w"
  by (simp_all add: ensure_token_def and_then_preserves)

lemma getAgencies_fields [simp]:
  "apiUrl (snd (getAgencies w)) = apiUrl w"
  "socket (snd (getAgencies w)) = socket w"
  "sockets (snd (getAgencies w)) = sockets w"
  "promises (snd (getAgencies w)) = promises w"
  "listeners (snd (getAgencies w)) = listeners w"
  "currentAgencyId (snd (getAgencies w)) = currentAgencyId w"
  "calls (snd (getAgencies w)) = calls w"
  "warnings (snd (getAgencies w)) = warnings w"
  "inbox (snd (getAgencies w)) = inbox w"
  unfolding getAgencies_def
  by (rule and_then_preserves, simp, simp add: Let_def split: list.splits reply.splits)+

lemma outboxes_update_channel:
  assumes "\<And>c. outbox (f c) = outbox c"
  shows "outboxes (update_channel k f w) = outboxes w"
  by (auto simp: outboxes_def update_channel_def nth_list_update assms intro!: nth_equalityI)

lemma outboxes_fields [simp]:
  "outboxes (settle p v w) = outboxes w"
  "outboxes (w\<lparr>currentAgencyId := a\<rparr>) = outboxes w"
  "outboxes (w\<lparr>calls := cs\<rparr>) = outboxes w"
  "outboxes (w\<lparr>inbox := i\<rparr>) = outboxes w"
  "outboxes (w\<lparr>promises := ps\<rparr>) = outboxes w"
  "outboxes (snd (connect w)) = outboxes w"
  "outboxes (snd (ensure_token w)) = outboxes w"
  "outboxes (snd (getAgencies w)) = outboxes w"
  by (simp_all add: outboxes_def)

lemma outboxes_callbacks [simp]:
  "outboxes (socket_on k ev f w) = outboxes w"
  "outboxes (socket_once k ev f w) = outboxes w"
  "outboxes (socket_off k ev f w) = outboxes w"
  "outboxes (unwrap_once k ev f w) = outboxes w"
  "outboxes (update_channel k (arrive e) w) = outboxes w"
  by (simp_all add: channel_ops arrive_def outboxes_update_channel split: event.splits)

lemma outboxes_invoke [simp]: "outboxes (snd (invoke f ev w)) = outboxes w"
  by (cases f) (simp_all add: Let_def split: prod.splits option.splits)

lemma outboxes_deliver [simp]: "outboxes (deliver k ev w) = outboxes w"
  by (rule deliver_preserves) simp_all

lemma outboxes_await [simp]: "outboxes (snd (await p w)) = outboxes w"
  by (rule await_preserves) simp_all

lemma emitted_open_socket: "concat (outboxes (snd (open_socket w))) = concat (outboxes w)"
  unfolding open_socket_def
  by (rule and_then_preserves, simp, simp add: Let_def, simp add: outboxes_def)

lemma emitted_connectSocket: "concat (outboxes (snd (connectSocket w))) = concat (outboxes w)"
  unfolding connectSocket_def
  by (rule and_then_preserves) (simp_all add: emitted_open_socket)

lemma open_socket_Returns:
  assumes "open_socket w = (Returns p, w1)"
  obtains w0 where "ensure_token w = (Returns (), w0)" and "p = length (promises w0)"
    and "w1 = socket_on (length (sockets w0)) ''connect_error'' (ConnectReject p)
               (socket_on (length (sockets w0)) ''connect'' (ConnectResolve p)
                 (w0\<lparr>socket := Some (length (sockets w0)),
                       sockets := sockets w0 @
                         [\<lparr>uri = apiUrl w0, auth = token w0, connected = False, closed = False,
                           callbacks = \<lambda>_. [], outbox = []\<rparr>],
                       promises := promises w0 @ [Unsettled]\<rparr>))"
  using assms unfolding open_socket_def
  by (elim and_then_ReturnsE) (auto simp: Let_def)

lemma open_socket_socket:
  assumes "open_socket w = (Returns p, w1)"
  shows "socket w1 = Some (length (sockets w)) \<and> length (sockets w1) = Suc (length (sockets w))"
proof -
  from assms obtain w0 where e: "ensure_token w = (Returns (), w0)"
    and w1: "w1 = socket_on (length (sockets w0)) ''connect_error'' (ConnectReject p)
               (socket_on (length (sockets w0)) ''connect'' (ConnectResolve p)
                 (w0\<lparr>socket := Some (length (sockets w0)),
                       sockets := sockets w0 @
                         [\<lparr>uri = apiUrl w0, auth = token w0, connected = False, closed = False,
                           callbacks = \<lambda>_. [], outbox = []\<rparr>],
                       promises := promises w0 @ [Unsettled]\<rparr>))"
    by (rule open_socket_Returns)
  from e have "sockets w0 = sockets w"
    using ensure_token_fields(3) [of w] by simp
  with w1 show ?thesis
    by (simp add: socket_on_def)
qed

lemma connectSocket_socket:
  assumes "connectSocket w = (Returns r, w1)"
  shows "socket w1 = Some (length (sockets w)) \<and> length (sockets w1) = Suc (length (sockets w))"
proof -
  from assms obtain p w0 where o: "open_socket w = (Returns p, w0)" and a: "await p w0 = (Returns r, w1)"
    unfolding connectSocket_def by (elim and_then_ReturnsE)
  from a have "socket w1 = socket w0" "length (sockets w1) = length (sockets w0)"
    using await_fields(5) [of p w0] await_fields(12) [of p w0] by simp_all
  with open_socket_socket [OF o] show ?thesis by simp
qed
lemma outboxes_socket_emit:
  "k < length (sockets w) \<Longrightarrow>
   outboxes (socket_emit k m w) = (outboxes w)[k := outboxes w ! k @ [m]]"
  by (simp add: outboxes_def socket_emit_def update_channel_def map_update)

text \<open>
  C2. Let the channel be connected (or the implied \<open>connectSocket\<close> return) and the
  directory request return a listing. If no record of the listing has the identifier as
  its id or as its slug, \<open>join\<close> throws the not-found error and nothing has been emitted
  on any channel. Otherwise, for the first record in the listing whose id or slug equals
  the identifier, the request appends one \<open>join-agency\<close> event carrying that record's id to
  the outbox of the agent's channel, nothing else having been emitted before, and awaiting
  the answer emits nothing more.
\<close>

theorem join_resolves_first_match:
  assumes pre: "(if \<not> socket_connected w then connectSocket w
                 else (Returns (Opened (socket w)), w)) = (Returns r1, w1)"
    and dir: "getAgencies w1 = (Returns agencies, w2)"
  shows "((\<forall>a \<in> set agencies. agency_id a \<noteq> x \<and> slug a \<noteq> Some x) \<longrightarrow>
            join x w = (Throws (Error (''Agency not found: '' @ x)), w2) \<and>
            concat (outboxes w2) = concat (outboxes w)) \<and>
         (\<forall>i < length agencies.
            (agency_id (agencies ! i) = x \<or> slug (agencies ! i) = Some x) \<and>
            (\<forall>j < i. agency_id (agencies ! j) \<noteq> x \<and> slug (agencies ! j) \<noteq> Some x) \<longrightarrow>
            (\<exists>k p w3. socket w2 = Some k \<and> k < length (sockets w2) \<and>
               join_request x w = (Returns p, w3) \<and>
               concat (outboxes w2) = concat (outboxes w) \<and>
               outboxes w3 = (outboxes w2)[k := outboxes w2 ! k @ [JoinAgency (agency_id (agencies ! i))]] \<and>
               outboxes (snd (join x w)) = outboxes w3))"
proof -
  let ?P = "\<lambda>a. agency_id a = x \<or> slug a = Some x"
  have w2: "outboxes w2 = outboxes w1" "socket w2 = socket w1" "sockets w2 = sockets w1"
    using getAgencies_fields(2,3) [of w1] outboxes_fields(8) [of w1] dir by simp_all
  have quiet: "concat (outboxes w2) = concat (outboxes w)"
  proof (cases "socket_connected w")
    case True
    with pre w2 show ?thesis by simp
  next
    case False
    with pre have "w1 = snd (connectSocket w)" by simp
    with w2 show ?thesis by (simp add: emitted_connectSocket)
  qed
  have sock: "\<exists>k. socket w2 = Some k \<and> k < length (sockets w2)"
  proof (cases "socket_connected w")
    case True
    with pre w2 show ?thesis
      by (auto simp: socket_connected_def split: option.splits)
  next
    case False
    with pre have "connectSocket w = (Returns r1, w1)" by simp
    from connectSocket_socket [OF this] w2 show ?thesis by simp
  qed
  have req: "join_request x w =
      (case find ?P agencies of
         None \<Rightarrow> (Throws (Error (''Agency not found: '' @ x)), w2)
       | Some a \<Rightarrow>
           (case socket w2 of
              None \<Rightarrow> (Throws (TypeError ''this.socket is null''), w2)
            | Some k \<Rightarrow>
                (let p = length (promises w2);
                     w3 = w2\<lparr>promises := promises w2 @ [Unsettled]\<rparr>
                 in (Returns p,
                     socket_emit k (JoinAgency (agency_id a))
                       (socket_once k ''error'' (OnErr p)
                         (socket_once k ''agency-joined'' (OnJoined p) w3))))))"
    using pre dir by (simp add: join_request_def)
  show ?thesis
  proof (intro conjI allI impI)
    assume "\<forall>a \<in> set agencies. agency_id a \<noteq> x \<and> slug a \<noteq> Some x"
    then have "find ?P agencies = None"
      by (auto simp: find_None_iff)
    with req show "join x w = (Throws (Error (''Agency not found: '' @ x)), w2)"
      by (simp add: join_def)
  next
    show "concat (outboxes w2) = concat (outboxes w)" by (rule quiet)
  next
    fix i
    assume i: "i < length agencies"
      and m: "(agency_id (agencies ! i) = x \<or> slug (agencies ! i) = Some x) \<and>
              (\<forall>j < i. agency_id (agencies ! j) \<noteq> x \<and> slug (agencies ! j) \<noteq> Some x)"
    then have f: "find ?P agencies = Some (agencies ! i)"
      by (auto simp: find_Some_iff)
    from sock obtain k where k: "socket w2 = Some k" "k < length (sockets w2)" by blast
    define p where "p = length (promises w2)"
    define w3 where "w3 = socket_emit k (JoinAgency (agency_id (agencies ! i)))
                       (socket_once k ''error'' (OnErr p)
                         (socket_once k ''agency-joined'' (OnJoined p)
                           (w2\<lparr>promises := promises w2 @ [Unsettled]\<rparr>)))"
    have r: "join_request x w = (Returns p, w3)"
      using req f k by (simp add: Let_def p_def w3_def)
    have o: "outboxes w3 = (outboxes w2)[k := outboxes w2 ! k @ [JoinAgency (agency_id (agencies ! i))]]"
      using k by (simp add: w3_def outboxes_socket_emit)
    have "outboxes (snd (join x w)) = outboxes w3"
      using r by (simp add: join_def)
    with k r o quiet
    show "\<exists>k p w3. socket w2 = Some k \<and> k < length (sockets w2) \<and>
               join_request x w = (Returns p, w3) \<and>
               concat (outboxes w2) = concat (outboxes w) \<and>
               outboxes w3 = (outboxes w2)[k := outboxes w2 ! k @ [JoinAgency (agency_id (agencies ! i))]] \<and>
               outboxes (snd (join x w)) = outboxes w3"
      by blast
  qed
qed

theorem join_resolves_first_match_witness:
  "socket_connected relisted \<and>
   fst (getAgencies relisted) = Returns [side_room, lobby] \<and>
   (\<exists>p w3. join_request ''lobby'' relisted = (Returns p, w3) \<and>
      outboxes w3 = [[JoinAgency ''r1'', JoinAgency ''r1'']]) \<and>
   fst (join ''nope'' relisted) = Throws (Error ''Agency not found: nope'')"
proof -
  have pre: "(if \<not> socket_connected relisted then connectSocket relisted
              else (Returns (Opened (socket relisted)), relisted)) =
             (Returns (Opened (socket relisted)), relisted)"
    by (simp add: relisted_fields)
  have dir: "getAgencies relisted = (Returns [side_room, lobby], snd (getAgencies relisted))"
    using relisted_fields(4) by (metis prod.collapse)
  have o2: "outboxes (snd (getAgencies relisted)) = [[JoinAgency ''r1'']]"
    "socket (snd (getAgencies relisted)) = Some 0"
    by (simp_all add: relisted_fields)
  have m: "(1::nat) < length [side_room, lobby] \<and>
      (agency_id ([side_room, lobby] ! 1) = ''lobby'' \<or> slug ([side_room, lobby] ! 1) = Some ''lobby'') \<and>
      (\<forall>j < 1. agency_id ([side_room, lobby] ! j) \<noteq> ''lobby'' \<and> slug ([side_room, lobby] ! j) \<noteq> Some ''lobby'')"
    by (simp add: lobby_def side_room_def)
  have n: "\<forall>a \<in> set [side_room, lobby]. agency_id a \<noteq> ''nope'' \<and> slug a \<noteq> Some ''nope''"
    by (simp add: lobby_def side_room_def)
  from join_resolves_first_match [OF pre dir, of "''lobby''"] m
  obtain k p w3 where "socket (snd (getAgencies relisted)) = Some k"
    and "join_request ''lobby'' relisted = (Returns p, w3)"
    and "outboxes w3 = (outboxes (snd (getAgencies relisted)))
           [k := outboxes (snd (getAgencies relisted)) ! k @ [JoinAgency (agency_id ([side_room, lobby] ! 1))]]"
    by blast
  with o2 have 1: "\<exists>p w3. join_request ''lobby'' relisted = (Returns p, w3) \<and>
      outboxes w3 = [[JoinAgency ''r1'', JoinAgency ''r1'']]"
    by (auto simp: lobby_def)
  from join_resolves_first_match [OF pre dir, of "''nope''"] n
  have 2: "fst (join ''nope'' relisted) = Throws (Error ''Agency not found: nope'')"
    by simp
  from 1 2 relisted_fields(1,4) show ?thesis by blast
qed

section \<open>joinAllMemberAgencies\<close>

lemma open_socket_fields [simp]:
  "apiUrl (snd (open_socket w)) = apiUrl w"
  "listeners (snd (open_socket w)) = listeners w"
  "warnings (snd (open_socket w)) = warnings w"
  unfolding open_socket_def
  by (rule and_then_preserves, simp, simp add: Let_def)+

lemma connectSocket_fields [simp]:
  "apiUrl (snd (connectSocket w)) = apiUrl w"
  "listeners (snd (connectSocket w)) = listeners w"
  "warnings (snd (connectSocket w)) = warnings w"
  unfolding connectSocket_def
  by (rule and_then_preserves, simp, simp)+

lemma join_request_fields [simp]:
  "apiUrl (snd (join_request x w)) = apiUrl w"
  "listeners (snd (join_request x w)) = listeners w"
  "warnings (snd (join_request x w)) = warnings w"
  unfolding join_request_def
  by (rule and_then_preserves, simp, rule and_then_preserves, simp,
      simp add: Let_def split: option.splits)+

lemma join_fields [simp]:
  "apiUrl (snd (join x w)) = apiUrl w"
  "listeners (snd (join x w)) = listeners w"
  "warnings (snd (join x w)) = warnings w"
  unfolding join_def
  by (rule and_then_preserves, simp, simp)+

lemma join_each_attempts:
  "join_each as joined w =
     (case attempts (map slug_or_id as) w of
        (rs, w') \<Rightarrow>
          (if Hangs \<in> snd ` set rs then Hangs
           else Returns (joined @ map fst (filter (\<lambda>r. returned (snd r)) rs)), w'))"
proof (induction as arbitrary: joined w)
  case Nil
  show ?case by simp
next
  case (Cons a as)
  obtain r w1 where j: "join (slug_or_id a) w = (r, w1)" by (cases "join (slug_or_id a) w")
  show ?case
  proof (cases r)
    case (Returns v)
    with j Cons.IH [of "joined @ [slug_or_id a]" w1] show ?thesis
      by (auto split: prod.splits)
  next
    case (Throws e)
    with j Cons.IH [of joined "warn_failed (slug_or_id a) e w1"] show ?thesis
      by (auto simp: warn_failed_def split: prod.splits)
  next
    case Hangs
    with j show ?thesis by simp
  qed
qed

lemma attempts_order:
  "prefix (map fst (fst (attempts xs w))) xs \<and>
   (Hangs \<notin> snd ` set (fst (attempts xs w)) \<longrightarrow> map fst (fst (attempts xs w)) = xs)"
proof (induction xs arbitrary: w)
  case Nil
  show ?case by simp
next
  case (Cons x xs)
  obtain r w1 where j: "join x w = (r, w1)" by (cases "join x w")
  show ?case
  proof (cases r)
    case (Returns v)
    with j Cons.IH [of w1] show ?thesis by (auto split: prod.splits)
  next
    case (Throws e)
    with j Cons.IH [of "warn_failed x e w1"] show ?thesis by (auto split: prod.splits)
  next
    case Hangs
    with j show ?thesis by simp
  qed
qed

lemma attempts_warnings:
  "warnings (snd (attempts xs w)) = warnings w @ concat (map warning_of (fst (attempts xs w)))"
proof (induction xs arbitrary: w)
  case Nil
  show ?case by simp
next
  case (Cons x xs)
  obtain r w1 where j: "join x w = (r, w1)" by (cases "join x w")
  then have w1: "warnings w1 = warnings w"
    using join_fields(3) [of x w] by simp
  show ?case
  proof (cases r)
    case (Returns v)
    with j w1 Cons.IH [of w1] show ?thesis by (auto split: prod.splits)
  next
    case (Throws e)
    with j w1 Cons.IH [of "warn_failed x e w1"] show ?thesis
      by (auto simp: warn_failed_def split: prod.splits)
  next
    case Hangs
    with j w1 show ?thesis by simp
  qed
qed


section \<open>Reachable worlds are well formed\<close>

lemma entry_ok_mono: "entry_ok n e \<Longrightarrow> n \<le> m \<Longrightarrow> entry_ok m e"
  by (cases "(n, e)" rule: entry_ok.cases) auto

lemma channel_ok_mono: "channel_ok n c \<Longrightarrow> n \<le> m \<Longrightarrow> channel_ok m c"
  by (auto simp: channel_ok_def list_all_iff intro: entry_ok_mono)

lemma channel_ok_shrink:
  assumes "channel_ok n c" and "set es \<subseteq> set (callbacks c ev)"
  shows "channel_ok n (c\<lparr>callbacks := (callbacks c)(ev := es)\<rparr>)"
  using assms by (auto simp: channel_ok_def list_all_iff)

lemma channel_ok_add:
  assumes "channel_ok n c" and "entry_ok n e"
  shows "channel_ok n (c\<lparr>callbacks := (callbacks c)(ev := callbacks c ev @ [e])\<rparr>)"
  using assms by (auto simp: channel_ok_def list_all_iff)

lemma channel_ok_flags:
  "callbacks c' = callbacks c \<Longrightarrow> channel_ok n c' = channel_ok n c"
  by (simp add: channel_ok_def)

lemma well_formed_cong:
  "promises w' = promises w \<Longrightarrow> sockets w' = sockets w \<Longrightarrow> socket w' = socket w \<Longrightarrow>
   listeners w' = listeners w \<Longrightarrow> well_formed w' = well_formed w"
  by (simp add: well_formed_def)

lemma well_formed_update_channel:
  assumes "well_formed w"
    and "\<And>c. channel_ok (length (promises w)) c \<Longrightarrow> channel_ok (length (promises w)) (f c)"
  shows "well_formed (update_channel k f w)"
  using assms
  by (auto simp: well_formed_def update_channel_def list_all_length nth_list_update)

lemma well_formed_socket_off: "well_formed w \<Longrightarrow> well_formed (socket_off k ev f w)"
  unfolding socket_off_def
  by (erule well_formed_update_channel) (erule channel_ok_shrink, rule set_remove_first)

lemma well_formed_unwrap_once: "well_formed w \<Longrightarrow> well_formed (unwrap_once k ev f w)"
  unfolding unwrap_once_def
  by (erule well_formed_update_channel) (erule channel_ok_shrink, rule set_remove1_subset)

lemma well_formed_socket_on:
  "well_formed w \<Longrightarrow> entry_ok (length (promises w)) (f, False) \<Longrightarrow> well_formed (socket_on k ev f w)"
  unfolding socket_on_def
  by (erule well_formed_update_channel) (erule channel_ok_add)

lemma well_formed_socket_once:
  "well_formed w \<Longrightarrow> entry_ok (length (promises w)) (f, True) \<Longrightarrow> well_formed (socket_once k ev f w)"
  unfolding socket_once_def
  by (erule well_formed_update_channel) (erule channel_ok_add)

lemma well_formed_flags:
  assumes "well_formed w" and "\<And>c. callbacks (f c) = callbacks c"
  shows "well_formed (update_channel k f w)"
  using assms(1) by (rule well_formed_update_channel) (simp add: channel_ok_flags [OF assms(2)])

lemma well_formed_settle [simp]: "well_formed (settle p v w) = well_formed w"
  by (simp add: well_formed_def)

lemma well_formed_simple_fields [simp]:
  "well_formed (w\<lparr>calls := cs\<rparr>) = well_formed w"
  "well_formed (w\<lparr>currentAgencyId := a\<rparr>) = well_formed w"
  "well_formed (w\<lparr>inbox := i\<rparr>) = well_formed w"
  "well_formed (w\<lparr>warnings := ws\<rparr>) = well_formed w"
  "well_formed (w\<lparr>requests := rs\<rparr>) = well_formed w"
  by (simp_all add: well_formed_def)

lemma well_formed_invoke: "well_formed w \<Longrightarrow> well_formed (snd (invoke f ev w))"
  by (cases f) (simp_all add: Let_def well_formed_socket_off split: prod.splits option.splits)

lemma well_formed_dispatch: "well_formed w \<Longrightarrow> well_formed (dispatch k ev es w)"
proof (induction es arbitrary: w)
  case Nil
  then show ?case by simp
next
  case (Cons e es)
  obtain f once where e: "e = (f, once)" by (cases e)
  define w1 where "w1 = (if once then unwrap_once k (event_name ev) f w else w)"
  have "well_formed w1"
    using Cons.prems by (simp add: w1_def well_formed_unwrap_once)
  then have "well_formed (snd (invoke f ev w1))"
    by (rule well_formed_invoke)
  with Cons.IH show ?case
    by (simp add: e dispatch_Cons w1_def)
qed

lemma well_formed_deliver: "well_formed w \<Longrightarrow> well_formed (deliver k ev w)"
proof -
  assume wf: "well_formed w"
  then have "well_formed (update_channel k (arrive ev) w)"
    by (rule well_formed_flags) (simp add: arrive_def split: event.splits)
  with wf show ?thesis
    by (simp add: deliver_def well_formed_dispatch)
qed

lemma well_formed_run_inbox: "well_formed w \<Longrightarrow> well_formed (run_inbox p i w)"
proof (induction i arbitrary: w)
  case Nil
  then show ?case by simp
next
  case (Cons e i)
  obtain k ev where e: "e = (k, ev)" by (cases e)
  from Cons show ?case by (simp add: e well_formed_deliver)
qed

lemma well_formed_await: "well_formed w \<Longrightarrow> well_formed (snd (await p w))"
  by (simp add: await_def Let_def well_formed_run_inbox split: settled.splits)

lemma well_formed_connect: "well_formed w \<Longrightarrow> well_formed (snd (connect w))"
  using connect_fields(2,3,4,5) [of w] by (simp add: well_formed_def)

lemma well_formed_ensure_token: "well_formed w \<Longrightarrow> well_formed (snd (ensure_token w))"
  using ensure_token_fields(2,3,4,5) [of w] by (simp add: well_formed_def)

lemma well_formed_getAgencies: "well_formed w \<Longrightarrow> well_formed (snd (getAgencies w))"
  using getAgencies_fields(2,3,4,5) [of w] by (simp add: well_formed_def)

lemma well_formed_new_channel:
  assumes "well_formed w" and "channel_ok (Suc (length (promises w))) c"
  shows "well_formed (w\<lparr>socket := Some (length (sockets w)), sockets := sockets w @ [c],
                        promises := promises w @ [Unsettled]\<rparr>)"
  using assms by (auto simp: well_formed_def list_all_iff intro: channel_ok_mono)

lemma well_formed_new_promise:
  assumes "well_formed w"
  shows "well_formed (w\<lparr>promises := promises w @ [v]\<rparr>)"
  using assms by (auto simp: well_formed_def list_all_iff intro: channel_ok_mono)
lemma well_formed_open_socket:
  assumes "well_formed w"
  shows "well_formed (snd (open_socket w))"
  unfolding open_socket_def Let_def
proof (rule and_then_invariant [where P = well_formed])
  show "well_formed (snd (ensure_token w))"
    using assms by (rule well_formed_ensure_token)
next
  fix u w1
  assume wf: "well_formed w1"
  have "well_formed (w1\<lparr>socket := Some (length (sockets w1)),
          sockets := sockets w1 @
            [\<lparr>uri = apiUrl w1, auth = token w1, connected = False, closed = False,
              callbacks = \<lambda>_. [], outbox = []\<rparr>],
          promises := promises w1 @ [Unsettled]\<rparr>)"
    using wf by (rule well_formed_new_channel) (simp add: channel_ok_def)
  then show "well_formed
          (snd (Returns (length (promises w1)),
                socket_on (length (sockets w1)) ''connect_error'' (ConnectReject (length (promises w1)))
                 (socket_on (length (sockets w1)) ''connect'' (ConnectResolve (length (promises w1)))
                   (w1\<lparr>socket := Some (length (sockets w1)),
                         sockets := sockets w1 @
                           [\<lparr>uri = apiUrl w1, auth = token w1, connected = False, closed = False,
                             callbacks = \<lambda>_. [], outbox = []\<rparr>],
                         promises := promises w1 @ [Unsettled]\<rparr>))))"
    by (simp add: well_formed_socket_on)
qed

lemma well_formed_connectSocket: "well_formed w \<Longrightarrow> well_formed (snd (connectSocket w))"
  unfolding connectSocket_def
  by (rule and_then_invariant [where P = well_formed])
     (simp_all add: well_formed_open_socket well_formed_await)

lemma well_formed_join_request:
  assumes "well_formed w"
  shows "well_formed (snd (join_request x w))"
  unfolding join_request_def
proof (rule and_then_invariant [where P = well_formed])
  show "well_formed (snd (if \<not> socket_connected w then connectSocket w
                           else (Returns (Opened (socket w)), w)))"
    using assms by (simp add: well_formed_connectSocket)
next
  fix r1 w1
  assume "well_formed w1"
  then have g: "well_formed (snd (getAgencies w1))"
    by (rule well_formed_getAgencies)
  show "well_formed (snd (and_then (getAgencies w1) (\<lambda>agencies w2.
       case find (\<lambda>a. agency_id a = x \<or> slug a = Some x) agencies of
         None \<Rightarrow> (Throws (Error (''Agency not found: '' @ x)), w2)
       | Some a \<Rightarrow>
           (case socket w2 of
              None \<Rightarrow> (Throws (TypeError ''this.socket is null''), w2)
            | Some k \<Rightarrow>
                (let p = length (promises w2);
                     w3 = w2\<lparr>promises := promises w2 @ [Unsettled]\<rparr>
                 in (Returns p,
                     socket_emit k (JoinAgency (agency_id a))
                       (socket_once k ''error'' (OnErr p)
                         (socket_once k ''agency-joined'' (OnJoined p) w3))))))))"
  proof (rule and_then_invariant [where P = well_formed, OF g])
    fix agencies w2
    assume wf: "well_formed w2"
    have e: "\<And>k a. well_formed
          (socket_emit k (JoinAgency (agency_id a))
             (socket_once k ''error'' (OnErr (length (promises w2)))
               (socket_once k ''agency-joined'' (OnJoined (length (promises w2)))
                 (w2\<lparr>promises := promises w2 @ [Unsettled]\<rparr>))))"
      unfolding socket_emit_def
      by (intro well_formed_flags well_formed_socket_once well_formed_new_promise wf) simp_all
    show "well_formed (snd (
       case find (\<lambda>a. agency_id a = x \<or> slug a = Some x) agencies of
         None \<Rightarrow> (Throws (Error (''Agency not found: '' @ x)), w2)
       | Some a \<Rightarrow>
           (case socket w2 of
              None \<Rightarrow> (Throws (TypeError ''this.socket is null''), w2)
            | Some k \<Rightarrow>
                (let p = length (promises w2);
                     w3 = w2\<lparr>promises := promises w2 @ [Unsettled]\<rparr>
                 in (Returns p,
                     socket_emit k (JoinAgency (agency_id a))
                       (socket_once k ''error'' (OnErr p)
                         (socket_once k ''agency-joined'' (OnJoined p) w3)))))))"
      using wf e by (auto simp: Let_def split: option.splits)
  qed
qed

lemma well_formed_join: "well_formed w \<Longrightarrow> well_formed (snd (join x w))"
  unfolding join_def
  by (rule and_then_invariant [where P = well_formed])
     (simp_all add: well_formed_join_request well_formed_await)

lemma well_formed_join_each: "well_formed w \<Longrightarrow> well_formed (snd (join_each as joined w))"
proof (induction as arbitrary: joined w)
  case Nil
  then show ?case by simp
next
  case (Cons a as)
  from Cons.prems have "well_formed (snd (join (slug_or_id a) w))"
    by (rule well_formed_join)
  with Cons.IH show ?case
    by (auto split: prod.splits outcome.splits)
qed

lemma well_formed_joinAllMemberAgencies:
  "well_formed w \<Longrightarrow> well_formed (snd (joinAllMemberAgencies w))"
  unfolding joinAllMemberAgencies_def
  by (rule and_then_invariant [where P = well_formed])
     (simp_all add: well_formed_getAgencies well_formed_join_each)

lemma well_formed_send: "well_formed w \<Longrightarrow> well_formed (snd (send message_text options w))"
  by (simp add: send_def Let_def socket_emit_def well_formed_flags split: option.splits)

lemma keys_push_handler:
  "map fst (push_handler ev h ls) = (if ev \<in> fst ` set ls then map fst ls else map fst ls @ [ev])"
  by (induction ev h ls rule: push_handler.induct) auto

lemma well_formed_listeners:
  "well_formed w \<Longrightarrow> distinct (map fst ls) \<Longrightarrow> well_formed (w\<lparr>listeners := ls\<rparr>)"
  by (simp add: well_formed_def)

lemma well_formed_on:
  assumes "well_formed w"
  shows "well_formed (on ev h w)"
proof -
  have "distinct (map fst (push_handler ev h (listeners w)))"
    using assms by (auto simp: keys_push_handler well_formed_def)
  with assms have "well_formed (w\<lparr>listeners := push_handler ev h (listeners w)\<rparr>)"
    by (rule well_formed_listeners)
  then show ?thesis
    by (simp add: on_def Let_def well_formed_socket_on split: option.splits)
qed

lemma well_formed_off:
  assumes "well_formed w"
  shows "well_formed (off ev h w)"
proof -
  have "distinct (map fst (splice_handler ev h (listeners w)))"
    using assms by (simp add: keys_splice_handler well_formed_def)
  with assms have "well_formed (w\<lparr>listeners := splice_handler ev h (listeners w)\<rparr>)"
    by (rule well_formed_listeners)
  then show ?thesis
    by (simp add: off_def Let_def well_formed_socket_off split: option.splits)
qed

lemma well_formed_getRecentMessages:
  "well_formed w \<Longrightarrow> well_formed (snd (getRecentMessages opts w))"
  unfolding getRecentMessages_def
  by (rule and_then_invariant [where P = well_formed])
     (simp_all add: well_formed_ensure_token well_formed_def Let_def split: list.splits reply.splits)

lemma well_formed_socket_disconnect: "well_formed w \<Longrightarrow> well_formed (socket_disconnect k w)"
  by (simp add: socket_disconnect_def Let_def well_formed_dispatch well_formed_flags)

lemma well_formed_disconnect: "well_formed w \<Longrightarrow> well_formed (disconnect w)"
proof -
  assume wf: "well_formed w"
  have "\<And>k. well_formed ((socket_disconnect k w)\<lparr>socket := None, currentAgencyId := None\<rparr>)"
    using well_formed_socket_disconnect [OF wf] by (simp add: well_formed_def)
  with wf show ?thesis
    by (simp add: disconnect_def Let_def split: option.splits)
qed

lemma well_formed_attach_handlers:
  "well_formed w \<Longrightarrow> well_formed (fold (\<lambda>h. socket_on k ev (User h)) hs w)"
  by (induction hs arbitrary: w) (simp_all add: well_formed_socket_on)

lemma well_formed_attach_listeners: "well_formed w \<Longrightarrow> well_formed (attach_listeners k ls w)"
  unfolding attach_listeners_def
  by (induction ls arbitrary: w) (auto simp: well_formed_attach_handlers)

lemma well_formed_connectAndJoin:
  assumes "well_formed w"
  shows "well_formed (snd (connectAndJoin y w))"
  unfolding connectAndJoin_def
proof (rule and_then_invariant [where P = well_formed])
  show "well_formed (snd (connect w))"
    using assms by (rule well_formed_connect)
next
  fix d w1
  assume "well_formed w1"
  then have c: "well_formed (snd (connectSocket w1))"
    by (rule well_formed_connectSocket)
  show "well_formed (snd (and_then (connectSocket w1) (\<lambda>_ w2.
       case socket w2 of
         None \<Rightarrow> (Throws (TypeError ''this.socket is null''), w2)
       | Some k \<Rightarrow>
           join (case y of None \<Rightarrow> ''lobby'' | Some x \<Rightarrow> x)
             (attach_listeners k (listeners w2) w2))))"
    by (rule and_then_invariant [where P = well_formed, OF c])
       (simp add: well_formed_join well_formed_attach_listeners split: option.splits)
qed

lemma well_formed_script: "well_formed w \<Longrightarrow> well_formed (script a d m i w)"
  by (simp add: script_def well_formed_def)

lemma well_formed_ctor: "well_formed (ctor url0 tok)"
  by (simp add: ctor_def well_formed_def)

lemma reachable_well_formed: "reachable w \<Longrightarrow> well_formed w"
proof (induction rule: reachable.induct)
  case (constructed url0 tok)
  show ?case by (rule well_formed_ctor)
next
  case (server w a d m i)
  then show ?case by (simp add: well_formed_script)
next
  case (delivered w k ev)
  then show ?case by (simp add: well_formed_deliver)
next
  case (connect w)
  then show ?case by (simp add: well_formed_connect)
next
  case (open_socket w)
  then show ?case by (simp add: well_formed_open_socket)
next
  case (connectSocket w)
  then show ?case by (simp add: well_formed_connectSocket)
next
  case (join_request w x)
  then show ?case by (simp add: well_formed_join_request)
next
  case (join w x)
  then show ?case by (simp add: well_formed_join)
next
  case (joinAllMemberAgencies w)
  then show ?case by (simp add: well_formed_joinAllMemberAgencies)
next
  case (send w message_text options)
  then show ?case by (simp add: well_formed_send)
next
  case (on w event h)
  then show ?case by (simp add: well_formed_on)
next
  case (off w event h)
  then show ?case by (simp add: well_formed_off)
next
  case (getAgencies w)
  then show ?case by (simp add: well_formed_getAgencies)
next
  case (getRecentMessages w opts)
  then show ?case by (simp add: well_formed_getRecentMessages)
next
  case (disconnect w)
  then show ?case by (simp add: well_formed_disconnect)
next
  case (connectAndJoin w y)
  then show ?case by (simp add: well_formed_connectAndJoin)
qed

section \<open>The join requests of the batch\<close>

lemma agencies_replies_fields [simp]:
  "agencies_replies (snd (connect w)) = agencies_replies w"
  "agencies_replies (snd (ensure_token w)) = agencies_replies w"
  "agencies_replies (snd (open_socket w)) = agencies_replies w"
  "agencies_replies (snd (connectSocket w)) = agencies_replies w"
proof -
  show c: "agencies_replies (snd (connect w)) = agencies_replies w" for w
    by (simp add: connect_def Let_def split: list.splits reply.splits error_body.splits option.splits)
  show e: "agencies_replies (snd (ensure_token w)) = agencies_replies w" for w
    by (simp add: ensure_token_def and_then_preserves c)
  show o: "agencies_replies (snd (open_socket w)) = agencies_replies w" for w
    unfolding open_socket_def
    by (rule and_then_preserves) (simp_all add: e Let_def socket_on_def)
  show "agencies_replies (snd (connectSocket w)) = agencies_replies w"
    unfolding connectSocket_def
    by (rule and_then_preserves) (simp_all add: o)
qed

lemma getAgencies_listing:
  assumes "listing_is agencies w"
  shows "listing_is agencies (snd (getAgencies w))"
    and "getAgencies w = (Returns l, w2) \<Longrightarrow> l = agencies"
proof -
  let ?g = "\<lambda>(u :: unit) w1.
      let w2 = w1\<lparr>requests := requests w1 @
                 [\<lparr>http_method = ''GET'', url = apiUrl w1 @ ''/api/agencies'', query = [],
                   bearer = token w1, body = None\<rparr>]\<rparr>
      in case agencies_replies w2 of
           [] \<Rightarrow> (Hangs, w2)
         | r # rs \<Rightarrow>
             (let w3 = w2\<lparr>agencies_replies := rs\<rparr>
              in case r of
                   Fails e \<Rightarrow> (Throws e, w3)
                 | Status st err \<Rightarrow> (Throws (Error (''Failed to fetch agencies: '' @ show_nat st)), w3)
                 | Json agencies \<Rightarrow> (Returns agencies, w3))"
  have g: "getAgencies w = and_then (ensure_token w) ?g"
    by (simp add: getAgencies_def)
  have step: "listing_is agencies (snd (?g u w1)) \<and>
              (\<forall>l w2. ?g u w1 = (Returns l, w2) \<longrightarrow> l = agencies)"
    if "listing_is agencies w1" for u :: unit and w1
    using that
    by (auto simp: listing_is_def Let_def split: list.splits reply.splits)
  have e: "listing_is agencies (snd (ensure_token w))"
    using assms by (simp add: listing_is_def)
  show "listing_is agencies (snd (getAgencies w))"
    unfolding g
  proof (rule and_then_invariant [where P = "listing_is agencies", OF e])
    fix u w1
    assume "listing_is agencies w1"
    from step [OF this] show "listing_is agencies (snd (?g u w1))" ..
  qed
  show "l = agencies" if "getAgencies w = (Returns l, w2)"
  proof -
    from that obtain u w1 where "ensure_token w = (Returns u, w1)" and r: "?g u w1 = (Returns l, w2)"
      unfolding g by (elim and_then_ReturnsE)
    then have "w1 = snd (ensure_token w)"
      by simp
    with e have "listing_is agencies w1"
      by simp
    from step [OF this] r show ?thesis
      by blast
  qed
qed

lemma count_emitted:
  "k < length xs \<Longrightarrow>
   count_list (concat (xs[k := xs ! k @ [m]])) y =
     count_list (concat xs) y + (if y = m then 1 else 0)"
proof (induction xs arbitrary: k)
  case Nil
  then show ?case by simp
next
  case (Cons x xs)
  then show ?case by (cases k) auto
qed

text \<open>
  A join of \<open>x\<close>, where every listing is \<open>agencies\<close> and \<open>a\<close> is its first record with id or
  slug \<open>x\<close>: it emits nothing, or one \<open>join-agency\<close> with the id of \<open>a\<close>, which it does if it
  returns.
\<close>

lemma join_request_requests:
  assumes "well_formed w" and "listing_is agencies w"
    and "find (\<lambda>b. agency_id b = x \<or> slug b = Some x) agencies = Some a"
  shows "\<exists>es. (es = [] \<or> es = [JoinAgency (agency_id a)]) \<and>
           (\<forall>m. count_list (concat (outboxes (snd (join_request x w)))) m =
                  count_list (concat (outboxes w)) m + count_list es m) \<and>
           (returned (fst (join_request x w)) \<longrightarrow> es \<noteq> [])"
proof -
  let ?pre = "if \<not> socket_connected w then connectSocket w else (Returns (Opened (socket w)), w)"
  let ?h = "\<lambda>agencies w2.
       case find (\<lambda>a. agency_id a = x \<or> slug a = Some x) agencies of
         None \<Rightarrow> (Throws (Error (''Agency not found: '' @ x)), w2)
       | Some a \<Rightarrow>
           (case socket w2 of
              None \<Rightarrow> (Throws (TypeError ''this.socket is null''), w2)
            | Some k \<Rightarrow>
                (let p = length (promises w2);
                     w3 = w2\<lparr>promises := promises w2 @ [Unsettled]\<rparr>
                 in (Returns p,
                     socket_emit k (JoinAgency (agency_id a))
                       (socket_once k ''error'' (OnErr p)
                         (socket_once k ''agency-joined'' (OnJoined p) w3)))))"
  let ?g = "\<lambda>(r :: resolution) w1. and_then (getAgencies w1) ?h"
  have j: "join_request x w = and_then ?pre ?g"
    by (simp add: join_request_def)
  have none: ?thesis
    if "\<not> returned (fst (join_request x w))"
      and "concat (outboxes (snd (join_request x w))) = concat (outboxes w)"
    using that by (intro exI [of _ "[]"]) simp
  have pre: "concat (outboxes (snd ?pre)) = concat (outboxes w)" "well_formed (snd ?pre)"
    "listing_is agencies (snd ?pre)"
    using assms(1,2) by (simp_all add: emitted_connectSocket well_formed_connectSocket listing_is_def)
  show ?thesis
  proof (cases rule: and_then_cases [of ?pre ?g])
    case (throws e wa)
    with pre(1) show ?thesis
      by (intro none) (simp_all add: j)
  next
    case (hangs wa)
    with pre(1) show ?thesis
      by (intro none) (simp_all add: j)
  next
    case (returns r wa)
    then have wa: "wa = snd ?pre"
      by simp
    have a: "concat (outboxes wa) = concat (outboxes w)" "well_formed wa" "listing_is agencies wa"
      using pre by (simp_all only: wa)
    have j2: "join_request x w = and_then (getAgencies wa) ?h"
      using returns(2) by (simp add: j)
    show ?thesis
    proof (cases rule: and_then_cases [of "getAgencies wa" ?h])
      case (throws e w2)
      then have "w2 = snd (getAgencies wa)"
        by simp
      with throws a(1) show ?thesis
        by (intro none) (simp_all add: j2)
    next
      case (hangs w2)
      then have "w2 = snd (getAgencies wa)"
        by simp
      with hangs a(1) show ?thesis
        by (intro none) (simp_all add: j2)
    next
      case (returns l w2)
      then have w2: "w2 = snd (getAgencies wa)"
        by simp
      have l: "l = agencies"
        using getAgencies_listing(2) [OF a(3) returns(1)] .
      have o2: "outboxes w2 = outboxes wa" and wf2: "well_formed w2"
        using a(2) by (simp_all add: w2 well_formed_getAgencies)
      show ?thesis
      proof (cases "socket w2")
        case None
        with returns(2) assms(3) a(1) o2 show ?thesis
          by (intro none) (simp_all add: j2 l)
      next
        case (Some k)
        with wf2 have k: "k < length (sockets w2)"
          by (simp add: well_formed_def)
        have r: "join_request x w =
            (Returns (length (promises w2)),
             socket_emit k (JoinAgency (agency_id a))
               (socket_once k ''error'' (OnErr (length (promises w2)))
                 (socket_once k ''agency-joined'' (OnJoined (length (promises w2)))
                   (w2\<lparr>promises := promises w2 @ [Unsettled]\<rparr>))))"
          using returns(2) assms(3) Some by (simp add: j2 l Let_def)
        have "outboxes (snd (join_request x w)) =
                (outboxes w2)[k := outboxes w2 ! k @ [JoinAgency (agency_id a)]]"
          using k by (simp add: r outboxes_socket_emit)
        moreover have "k < length (outboxes w2)"
          using k by (simp add: outboxes_def)
        ultimately have "count_list (concat (outboxes (snd (join_request x w)))) m =
            count_list (concat (outboxes w)) m + count_list [JoinAgency (agency_id a)] m" for m
          using a(1) by (simp add: count_emitted o2)
        then show ?thesis
          by (intro exI [of _ "[JoinAgency (agency_id a)]"]) simp
      qed
    qed
  qed
qed

lemma listing_is_join_request:
  assumes "listing_is agencies w"
  shows "listing_is agencies (snd (join_request x w))"
  unfolding join_request_def
proof (rule and_then_invariant [where P = "listing_is agencies"])
  show "listing_is agencies
          (snd (if \<not> socket_connected w then connectSocket w else (Returns (Opened (socket w)), w)))"
    using assms by (simp add: listing_is_def)
next
  fix r1 w1
  assume l: "listing_is agencies w1"
  show "listing_is agencies (snd (and_then (getAgencies w1) (\<lambda>agencies w2.
       case find (\<lambda>a. agency_id a = x \<or> slug a = Some x) agencies of
         None \<Rightarrow> (Throws (Error (''Agency not found: '' @ x)), w2)
       | Some a \<Rightarrow>
           (case socket w2 of
              None \<Rightarrow> (Throws (TypeError ''this.socket is null''), w2)
            | Some k \<Rightarrow>
                (let p = length (promises w2);
                     w3 = w2\<lparr>promises := promises w2 @ [Unsettled]\<rparr>
                 in (Returns p,
                     socket_emit k (JoinAgency (agency_id a))
                       (socket_once k ''error'' (OnErr p)
                         (socket_once k ''agency-joined'' (OnJoined p) w3))))))))"
    by (rule and_then_invariant [where P = "listing_is agencies", OF getAgencies_listing(1) [OF l]])
       (simp add: listing_is_def Let_def channel_ops update_channel_def split: option.splits)
qed

lemma listing_is_join:
  assumes "listing_is agencies w"
  shows "listing_is agencies (snd (join x w))"
  unfolding join_def
  by (rule and_then_invariant [where P = "listing_is agencies"])
    (simp_all add: listing_is_join_request assms, simp add: listing_is_def)

lemma join_requests:
  assumes "well_formed w" and "listing_is agencies w"
    and "find (\<lambda>b. agency_id b = x \<or> slug b = Some x) agencies = Some a"
  shows "\<exists>es. (es = [] \<or> es = [JoinAgency (agency_id a)]) \<and>
           (\<forall>m. count_list (concat (outboxes (snd (join x w)))) m =
                  count_list (concat (outboxes w)) m + count_list es m) \<and>
           (returned (fst (join x w)) \<longrightarrow> es \<noteq> [])"
proof -
  have o: "outboxes (snd (join x w)) = outboxes (snd (join_request x w))"
    unfolding join_def
    by (cases rule: and_then_cases [of "join_request x w" await]) simp_all
  have r: "returned (fst (join_request x w))" if "returned (fst (join x w))"
    using that unfolding join_def
    by (cases rule: and_then_cases [of "join_request x w" await]) simp_all
  from join_request_requests [OF assms] r show ?thesis
    unfolding o by blast
qed

lemma warn_failed_fields [simp]:
  "outboxes (warn_failed x e w) = outboxes w"
  "well_formed (warn_failed x e w) = well_formed w"
  "listing_is agencies (warn_failed x e w) = listing_is agencies w"
  by (simp_all add: warn_failed_def outboxes_def listing_is_def)

lemma attempts_requests:
  assumes "well_formed w" and "listing_is agencies w"
    and "\<forall>a \<in> set ms.
           find (\<lambda>b. agency_id b = slug_or_id a \<or> slug b = Some (slug_or_id a)) agencies = Some a"
  shows "\<exists>reqs. subseq reqs ms \<and>
           (\<forall>m. count_list (concat (outboxes (snd (attempts (map slug_or_id ms) w)))) m =
                  count_list (concat (outboxes w)) m +
                  count_list (map (\<lambda>a. JoinAgency (agency_id a)) reqs) m) \<and>
           fst ` {r \<in> set (fst (attempts (map slug_or_id ms) w)). returned (snd r)}
             \<subseteq> slug_or_id ` set reqs"
  using assms
proof (induction ms arbitrary: w)
  case Nil
  show ?case by (intro exI [of _ "[]"]) simp
next
  case (Cons a ms)
  let ?x = "slug_or_id a"
  from Cons.prems(3)
  have f: "find (\<lambda>b. agency_id b = ?x \<or> slug b = Some ?x) agencies = Some a"
    by simp
  from join_requests [OF Cons.prems(1,2) f] obtain es
    where es: "es = [] \<or> es = [JoinAgency (agency_id a)]"
      and c: "\<And>m. count_list (concat (outboxes (snd (join ?x w)))) m =
                    count_list (concat (outboxes w)) m + count_list es m"
      and r: "returned (fst (join ?x w)) \<longrightarrow> es \<noteq> []"
    by blast
  define first where "first = (if es = [] then [] else [a])"
  have first: "map (\<lambda>a. JoinAgency (agency_id a)) first = es" "subseq first [a]"
    using es by (auto simp: first_def)
  obtain res w1 where j: "join ?x w = (res, w1)"
    by (cases "join ?x w")
  then have w1: "w1 = snd (join ?x w)"
    by simp
  have i: "well_formed w1" "listing_is agencies w1"
    using Cons.prems(1,2) by (simp_all add: w1 well_formed_join listing_is_join)
  have ms: "\<forall>a \<in> set ms.
           find (\<lambda>b. agency_id b = slug_or_id a \<or> slug b = Some (slug_or_id a)) agencies = Some a"
    using Cons.prems(3) by simp
  show ?case
  proof (cases res)
    case Hangs
    have "subseq first (a # ms)"
      using first(2) by (auto simp: first_def)
    with c show ?thesis
      by (intro exI [of _ first]) (auto simp: j Hangs first(1) w1 [symmetric])
  next
    case (Returns v)
    from Cons.IH [OF i ms] obtain reqs where s: "subseq reqs ms"
      and c': "\<And>m. count_list (concat (outboxes (snd (attempts (map slug_or_id ms) w1)))) m =
                    count_list (concat (outboxes w1)) m +
                    count_list (map (\<lambda>a. JoinAgency (agency_id a)) reqs) m"
      and r': "fst ` {r \<in> set (fst (attempts (map slug_or_id ms) w1)). returned (snd r)}
                 \<subseteq> slug_or_id ` set reqs"
      by blast
    from r j Returns have fa: "first = [a]"
      by (simp add: first_def)
    have "subseq (a # reqs) (a # ms)"
      using s by simp
    moreover have "count_list (concat (outboxes (snd (attempts (map slug_or_id (a # ms)) w)))) m =
        count_list (concat (outboxes w)) m +
        count_list (map (\<lambda>a. JoinAgency (agency_id a)) (a # reqs)) m" for m
      using c [of m] c' [of m] first(1) [symmetric]
      by (cases "attempts (map slug_or_id ms) w1") (simp add: j Returns w1 [symmetric] fa)
    moreover have "fst ` {r \<in> set (fst (attempts (map slug_or_id (a # ms)) w)). returned (snd r)}
        \<subseteq> slug_or_id ` set (a # reqs)"
      using r' by (cases "attempts (map slug_or_id ms) w1") (auto simp: j Returns)
    ultimately show ?thesis
      by (intro exI [of _ "a # reqs"]) blast
  next
    case (Throws e)
    have i': "well_formed (warn_failed ?x e w1)" "listing_is agencies (warn_failed ?x e w1)"
      using i by simp_all
    from Cons.IH [OF i' ms] obtain reqs where s: "subseq reqs ms"
      and c': "\<And>m. count_list (concat (outboxes (snd (attempts (map slug_or_id ms) (warn_failed ?x e w1))))) m =
                    count_list (concat (outboxes w1)) m +
                    count_list (map (\<lambda>a. JoinAgency (agency_id a)) reqs) m"
      and r': "fst ` {r \<in> set (fst (attempts (map slug_or_id ms) (warn_failed ?x e w1))). returned (snd r)}
                 \<subseteq> slug_or_id ` set reqs"
      by auto
    have "subseq (first @ reqs) (a # ms)"
      using s by (auto simp: first_def)
    moreover have "count_list (concat (outboxes (snd (attempts (map slug_or_id (a # ms)) w)))) m =
        count_list (concat (outboxes w)) m +
        count_list (map (\<lambda>a. JoinAgency (agency_id a)) (first @ reqs)) m" for m
      using c [of m] c' [of m] first(1) [symmetric]
      by (cases "attempts (map slug_or_id ms) (warn_failed ?x e w1)")
        (simp add: j Throws w1 [symmetric])
    moreover have "fst ` {r \<in> set (fst (attempts (map slug_or_id (a # ms)) w)). returned (snd r)}
        \<subseteq> slug_or_id ` set (first @ reqs)"
      using r' by (cases "attempts (map slug_or_id ms) (warn_failed ?x e w1)") (auto simp: j Throws)
    ultimately show ?thesis
      by (intro exI [of _ "first @ reqs"]) blast
  qed
qed

text \<open>
  C3, as amended. Once the directory is fetched, the batch is the sequence of awaited
  calls \<open>join(a.slug || a.id)\<close>, one for each record \<open>a\<close> whose \<open>isMember\<close> is true, in
  directory order: none is made before the previous one has settled, and if one never
  settles neither does the batch. Otherwise the batch returns (it never throws) the
  identifiers whose join returned, in the order tried, every member was tried, and the
  console has one warning for each join that was rejected. Each of these calls looks its
  identifier up in a listing it fetches itself. When the agent is in a reachable state,
  every listing fetched during the batch is the directory, and each member record is the
  first record of the directory with its identifier for id or slug, then the
  \<open>join-agency\<close> requests emitted during the batch are requests for member records, with
  the record's id, at most one for each and none for any other room, and every identifier
  the batch returns is that of a record it has requested.
\<close>

theorem joinAllMemberAgencies_batch:
  assumes "getAgencies w = (Returns agencies, w1)"
  shows "case attempts (map slug_or_id (filter isMember agencies)) w1 of
           (rs, w') \<Rightarrow>
             joinAllMemberAgencies w =
               (if Hangs \<in> snd ` set rs then Hangs
                else Returns (map fst (filter (\<lambda>r. returned (snd r)) rs)), w') \<and>
             (\<forall>e. fst (joinAllMemberAgencies w) \<noteq> Throws e) \<and>
             prefix (map fst rs) (map slug_or_id (filter isMember agencies)) \<and>
             (Hangs \<notin> snd ` set rs \<longrightarrow> map fst rs = map slug_or_id (filter isMember agencies)) \<and>
             warnings w' = warnings w1 @ concat (map warning_of rs) \<and>
             (reachable w \<and> listing_is agencies w1 \<and>
              (\<forall>a \<in> set (filter isMember agencies).
                 find (\<lambda>b. agency_id b = slug_or_id a \<or> slug b = Some (slug_or_id a)) agencies =
                   Some a) \<longrightarrow>
              (\<exists>reqs. subseq reqs (filter isMember agencies) \<and>
                 (\<forall>m. count_list (concat (outboxes w')) m =
                        count_list (concat (outboxes w)) m +
                        count_list (map (\<lambda>a. JoinAgency (agency_id a)) reqs) m) \<and>
                 set (map fst (filter (\<lambda>r. returned (snd r)) rs)) \<subseteq> slug_or_id ` set reqs))"
proof -
  obtain rs w' where a: "attempts (map slug_or_id (filter isMember agencies)) w1 = (rs, w')"
    by (cases "attempts (map slug_or_id (filter isMember agencies)) w1")
  have j: "joinAllMemberAgencies w =
      (if Hangs \<in> snd ` set rs then Hangs
       else Returns (map fst (filter (\<lambda>r. returned (snd r)) rs)), w')"
    using assms a by (simp add: joinAllMemberAgencies_def join_each_attempts)
  from assms have w1: "w1 = snd (getAgencies w)"
    by simp
  have q: "\<exists>reqs. subseq reqs (filter isMember agencies) \<and>
             (\<forall>m. count_list (concat (outboxes w')) m =
                    count_list (concat (outboxes w)) m +
                    count_list (map (\<lambda>a. JoinAgency (agency_id a)) reqs) m) \<and>
             set (map fst (filter (\<lambda>r. returned (snd r)) rs)) \<subseteq> slug_or_id ` set reqs"
    if h: "reachable w \<and> listing_is agencies w1 \<and>
        (\<forall>a \<in> set (filter isMember agencies).
           find (\<lambda>b. agency_id b = slug_or_id a \<or> slug b = Some (slug_or_id a)) agencies = Some a)"
  proof -
    from h have "well_formed w1"
      by (simp add: w1 reachable_well_formed well_formed_getAgencies)
    from attempts_requests [OF this, of agencies "filter isMember agencies"] h
    obtain reqs where "subseq reqs (filter isMember agencies)"
      and "\<And>m. count_list (concat (outboxes (snd (attempts (map slug_or_id (filter isMember agencies)) w1)))) m =
                 count_list (concat (outboxes w1)) m +
                 count_list (map (\<lambda>a. JoinAgency (agency_id a)) reqs) m"
      and "fst ` {r \<in> set (fst (attempts (map slug_or_id (filter isMember agencies)) w1)). returned (snd r)}
             \<subseteq> slug_or_id ` set reqs"
      by blast
    moreover have "outboxes w1 = outboxes w"
      by (simp add: w1)
    ultimately show ?thesis
      by (intro exI [of _ reqs]) (force simp: a)
  qed
  from attempts_order [of "map slug_or_id (filter isMember agencies)" w1]
    attempts_warnings [of "map slug_or_id (filter isMember agencies)" w1] a j q
  show ?thesis by simp
qed

lemma members_three_rooms: "map slug_or_id (filter isMember three_rooms) = [''a'', ''c'']"
  by (simp add: three_rooms_def slug_or_id_def or_else_def)

lemma refusing_c_trace:
  "fst (getAgencies refusing_c) = Returns three_rooms"
  "fst (attempts [''a'', ''c''] (snd (getAgencies refusing_c))) =
     [(''a'', Returns (Joined (Some ''ra'') [''bot''])), (''c'', Throws (Error ''denied''))]"
  "warnings (snd (getAgencies refusing_c)) = []"
  "listing_is three_rooms (snd (getAgencies refusing_c))"
  "outboxes refusing_c = []"
  "outboxes (snd (joinAllMemberAgencies refusing_c)) = [[JoinAgency ''ra'', JoinAgency ''rc'']]"
  by (simp_all add: refusing_c_def three_rooms_def warn_failed_def listing_is_def outboxes_def
      joinAllMemberAgencies_def slug_or_id_def agent_defs split: prod.splits)

lemma members_first_three_rooms:
  "\<forall>a \<in> set (filter isMember three_rooms).
     find (\<lambda>b. agency_id b = slug_or_id a \<or> slug b = Some (slug_or_id a)) three_rooms = Some a"
  by (simp add: three_rooms_def slug_or_id_def or_else_def)

lemma reachable_refusing_c: "reachable refusing_c"
  unfolding refusing_c_def fresh_agent_def by (intro reachable.server reachable.constructed)

lemma accepting_both_result:
  "fst (joinAllMemberAgencies accepting_both) = Returns [''a'', ''c'']"
  by (simp add: accepting_both_def joinAllMemberAgencies_def three_rooms_def slug_or_id_def
        agent_defs dispatch.simps split: prod.splits)

theorem joinAllMemberAgencies_batch_witness:
  "fst (getAgencies refusing_c) = Returns three_rooms \<and>
   map slug_or_id (filter isMember three_rooms) = [''a'', ''c''] \<and>
   fst (joinAllMemberAgencies refusing_c) = Returns [''a''] \<and>
   warnings (snd (joinAllMemberAgencies refusing_c)) = [(''Failed to join c:'', ''denied'')] \<and>
   reachable refusing_c \<and>
   listing_is three_rooms (snd (getAgencies refusing_c)) \<and>
   outboxes (snd (joinAllMemberAgencies refusing_c)) = [[JoinAgency ''ra'', JoinAgency ''rc'']] \<and>
   (\<exists>reqs. subseq reqs (filter isMember three_rooms) \<and>
      (\<forall>m. count_list [JoinAgency ''ra'', JoinAgency ''rc''] m =
             count_list (map (\<lambda>a. JoinAgency (agency_id a)) reqs) m) \<and>
      ''a'' \<in> slug_or_id ` set reqs)"
proof -
  have g: "getAgencies refusing_c = (Returns three_rooms, snd (getAgencies refusing_c))"
    using refusing_c_trace(1) by (metis prod.collapse)
  obtain rs w' where a: "attempts [''a'', ''c''] (snd (getAgencies refusing_c)) = (rs, w')"
    by (cases "attempts [''a'', ''c''] (snd (getAgencies refusing_c))")
  with refusing_c_trace(2)
  have rs: "rs = [(''a'', Returns (Joined (Some ''ra'') [''bot''])), (''c'', Throws (Error ''denied''))]"
    by simp
  from joinAllMemberAgencies_batch [OF g] a reachable_refusing_c refusing_c_trace(4)
    members_first_three_rooms
  have b: "joinAllMemberAgencies refusing_c =
          (if Hangs \<in> snd ` set rs then Hangs
           else Returns (map fst (filter (\<lambda>r. returned (snd r)) rs)), w')"
    and w: "warnings w' = warnings (snd (getAgencies refusing_c)) @ concat (map warning_of rs)"
    and q: "\<exists>reqs. subseq reqs (filter isMember three_rooms) \<and>
                 (\<forall>m. count_list (concat (outboxes w')) m =
                        count_list (concat (outboxes refusing_c)) m +
                        count_list (map (\<lambda>a. JoinAgency (agency_id a)) reqs) m) \<and>
                 set (map fst (filter (\<lambda>r. returned (snd r)) rs)) \<subseteq> slug_or_id ` set reqs"
    by (simp_all add: members_three_rooms)
  from b have w': "w' = snd (joinAllMemberAgencies refusing_c)"
    by simp
  from q have "\<exists>reqs. subseq reqs (filter isMember three_rooms) \<and>
      (\<forall>m. count_list [JoinAgency ''ra'', JoinAgency ''rc''] m =
             count_list (map (\<lambda>a. JoinAgency (agency_id a)) reqs) m) \<and>
      ''a'' \<in> slug_or_id ` set reqs"
    by (simp add: w' refusing_c_trace(5,6) rs)
  with b w show ?thesis
    using refusing_c_trace members_three_rooms reachable_refusing_c by (simp add: rs)
qed

text \<open>
  C3 as stated fails where the identifier of a member record also belongs to an earlier
  record of the listing. The first room has the slug of the second and the agent is a
  member of the second only: the batch calls \<open>join('x')\<close> for the second room, \<open>join\<close>
  finds the first room under \<open>x\<close> and requests it, and the batch returns \<open>x\<close> as joined.
  The room of which the agent is a member is never requested.
\<close>

theorem joins_other_room_counterexample:
  "map agency_id (filter isMember same_slug_rooms) = [''r2''] \<and>
   fst (joinAllMemberAgencies ambiguous_listing) = Returns [''x''] \<and>
   outboxes (snd (joinAllMemberAgencies ambiguous_listing)) = [[JoinAgency ''r1'']]"
  by (simp add: ambiguous_listing_def same_slug_rooms_def joinAllMemberAgencies_def slug_or_id_def
      outboxes_def agent_defs split: prod.splits)

section \<open>Listener lists only shrink while events are delivered\<close>

lemma callbacks_update_channel:
  "callbacks (sockets (update_channel k f w) ! j) n =
     (if j = k \<and> k < length (sockets w) then callbacks (f (sockets w ! k)) n
      else callbacks (sockets w ! j) n)"
  by (simp add: nth_update_channel)

lemma subseq_remove_first: "subseq (remove_first f es) es"
  by (induction es) auto

lemma subseq_remove1: "subseq (remove1 x xs) xs"
  by (induction xs) auto

lemma shrinks_refl [simp]: "shrinks w w"
  by (simp add: shrinks_def)

lemma shrinks_trans: "shrinks a b \<Longrightarrow> shrinks b c \<Longrightarrow> shrinks a c"
  unfolding shrinks_def by (metis subseq_order.order_trans)

lemma shrinks_cong: "sockets w' = sockets w \<Longrightarrow> shrinks w w'"
  by (simp add: shrinks_def)

lemma shrinks_socket_off: "shrinks w (socket_off k n f w)"
  by (simp add: shrinks_def socket_off_def callbacks_update_channel subseq_remove_first)

lemma shrinks_unwrap_once: "shrinks w (unwrap_once k n f w)"
  by (simp add: shrinks_def unwrap_once_def callbacks_update_channel subseq_remove1)

lemma shrinks_arrive: "shrinks w (update_channel k (arrive ev) w)"
  by (simp add: shrinks_def callbacks_update_channel arrive_def split: event.splits)

lemma shrinks_invoke: "shrinks w (snd (invoke f ev w))"
proof (cases f)
  case (OnJoined p)
  have "\<And>a k. shrinks w (socket_off k ''error'' (OnErr p) (w\<lparr>currentAgencyId := a\<rparr>))"
    by (rule shrinks_trans [OF shrinks_cong shrinks_socket_off]) simp
  then show ?thesis
    using OnJoined by (simp add: Let_def shrinks_def split: prod.splits option.splits)
next
  case (OnErr p)
  then show ?thesis
    using shrinks_socket_off [of w _ "''agency-joined''" "OnJoined p"]
    by (simp add: shrinks_def split: option.splits)
qed (simp_all add: shrinks_def)

lemma shrinks_dispatch: "shrinks w (dispatch k ev es w)"
proof (induction es arbitrary: w)
  case Nil
  show ?case by simp
next
  case (Cons e es)
  obtain f once where e: "e = (f, once)" by (cases e)
  define w1 where "w1 = (if once then unwrap_once k (event_name ev) f w else w)"
  have 1: "shrinks w w1"
    by (simp add: w1_def shrinks_unwrap_once)
  have 2: "shrinks w (snd (invoke f ev w1))"
    by (rule shrinks_trans [OF 1 shrinks_invoke])
  have 3: "shrinks w (dispatch k ev es (snd (invoke f ev w1)))"
    by (rule shrinks_trans [OF 2 Cons.IH])
  from 2 3 show ?case
    by (simp add: e dispatch_Cons w1_def)
qed

lemma shrinks_deliver: "shrinks w (deliver k ev w)"
  by (auto simp: deliver_def intro: shrinks_trans [OF shrinks_arrive shrinks_dispatch])

lemma deliver_all_fields [simp]:
  "socket (deliver_all evs w) = socket w"
  "length (sockets (deliver_all evs w)) = length (sockets w)"
  "length (promises (deliver_all evs w)) = length (promises w)"
  "listeners (deliver_all evs w) = listeners w"
  unfolding deliver_all_def
  by (induction evs arbitrary: w; simp split: prod.splits; fail)+

lemma shrinks_deliver_all: "shrinks w (deliver_all evs w)"
  unfolding deliver_all_def
proof (induction evs arbitrary: w)
  case Nil
  show ?case by simp
next
  case (Cons e evs)
  obtain j ev where e: "e = (j, ev)" by (cases e)
  show ?case
    using shrinks_trans [OF shrinks_deliver Cons.IH] by (simp add: e)
qed

section \<open>A settled promise stays as it is\<close>

lemma promise_kept_invoke:
  "promise_state w p \<noteq> Unsettled \<Longrightarrow> promise_state (snd (invoke f ev w)) p = promise_state w p"
  by (cases f) (auto simp: Let_def promise_state_settle split: prod.splits option.splits)

lemma promise_kept_dispatch:
  "promise_state w p \<noteq> Unsettled \<Longrightarrow> promise_state (dispatch k ev es w) p = promise_state w p"
proof (induction es arbitrary: w)
  case Nil
  show ?case by simp
next
  case (Cons e es)
  obtain f once where e: "e = (f, once)" by (cases e)
  define w1 where "w1 = (if once then unwrap_once k (event_name ev) f w else w)"
  have 1: "promise_state w1 p = promise_state w p"
    by (simp add: w1_def)
  with Cons.prems have 2: "promise_state (snd (invoke f ev w1)) p = promise_state w p"
    by (simp add: promise_kept_invoke)
  with Cons.prems Cons.IH [of "snd (invoke f ev w1)"] show ?case
    by (simp add: e dispatch_Cons w1_def)
qed

lemma promise_kept_deliver:
  "promise_state w p \<noteq> Unsettled \<Longrightarrow> promise_state (deliver k ev w) p = promise_state w p"
  by (simp add: deliver_def promise_kept_dispatch)

lemma promise_kept_deliver_all:
  "promise_state w p \<noteq> Unsettled \<Longrightarrow> promise_state (deliver_all evs w) p = promise_state w p"
  unfolding deliver_all_def
proof (induction evs arbitrary: w)
  case Nil
  show ?case by simp
next
  case (Cons e evs)
  obtain j ev where e: "e = (j, ev)" by (cases e)
  from Cons.prems have "promise_state (deliver j ev w) p = promise_state w p"
    by (rule promise_kept_deliver)
  with Cons.prems Cons.IH [of "deliver j ev w"] show ?case
    by (simp add: e)
qed

section \<open>The listeners of a join are removed by the first of its two events\<close>

lemma closures_of_remove1: "closures_of p (remove1 x xs) = remove1 x (closures_of p xs)"
  by (simp add: closures_of_def filter_remove1)

lemma closures_of_remove_first_other:
  "f \<noteq> OnJoined p \<Longrightarrow> f \<noteq> OnErr p \<Longrightarrow> closures_of p (remove_first f es) = closures_of p es"
  by (induction es) (auto simp: closures_of_def)



lemma closures_of_empty_iff:
  "closures_of p es = [] \<longleftrightarrow> (\<forall>e \<in> set es. fst e \<noteq> OnJoined p \<and> fst e \<noteq> OnErr p)"
  by (auto simp: closures_of_def filter_empty_conv)




text \<open>Calling a listener that is not one of the join's leaves the join's listeners alone.\<close>

lemma closures_kept_unwrap_once:
  assumes "f \<noteq> OnJoined p" and "f \<noteq> OnErr p"
  shows "closures_of p (callbacks (sockets (unwrap_once k n' f w) ! j) n) =
         closures_of p (callbacks (sockets w ! j) n)"
proof -
  have "(f, True) \<notin> set (closures_of p es)" for es
    using assms by (auto simp: closures_of_def)
  then show ?thesis
    by (simp add: unwrap_once_def callbacks_update_channel closures_of_remove1 remove1_idem)
qed

lemma closures_kept_socket_off:
  assumes "f \<noteq> OnJoined p" and "f \<noteq> OnErr p"
  shows "closures_of p (callbacks (sockets (socket_off k n' f w) ! j) n) =
         closures_of p (callbacks (sockets w ! j) n)"
  using assms
  by (simp add: socket_off_def callbacks_update_channel closures_of_remove_first_other)

lemma sockets_simple_fields [simp]:
  "sockets (w\<lparr>currentAgencyId := a\<rparr>) = sockets w"
  "sockets (w\<lparr>calls := cs\<rparr>) = sockets w"
  by simp_all

lemma closures_kept_invoke:
  assumes "f \<noteq> OnJoined p" and "f \<noteq> OnErr p"
  shows "closures_of p (callbacks (sockets (snd (invoke f ev w)) ! j) n) =
         closures_of p (callbacks (sockets w ! j) n)"
proof (cases f)
  case (OnJoined q)
  with assms have "q \<noteq> p" by simp
  then have "\<And>s a. closures_of p (callbacks (sockets (socket_off s ''error'' (OnErr q)
                       (w\<lparr>currentAgencyId := a\<rparr>)) ! j) n) =
                   closures_of p (callbacks (sockets w ! j) n)"
    by (simp add: closures_kept_socket_off)
  with OnJoined show ?thesis
    by (simp add: Let_def split: prod.splits option.splits)
next
  case (OnErr q)
  with assms have "q \<noteq> p" by simp
  then have "\<And>s. closures_of p (callbacks (sockets (socket_off s ''agency-joined'' (OnJoined q) w) ! j) n) =
                   closures_of p (callbacks (sockets w ! j) n)"
    by (simp add: closures_kept_socket_off)
  with OnErr show ?thesis
    by (simp split: option.splits)
qed simp_all

lemma closures_kept_dispatch:
  assumes "closures_of p es = []"
  shows "closures_of p (callbacks (sockets (dispatch k ev es w) ! j) n) =
         closures_of p (callbacks (sockets w ! j) n)"
  using assms
proof (induction es arbitrary: w)
  case Nil
  show ?case by simp
next
  case (Cons e es)
  obtain f once where e: "e = (f, once)" by (cases e)
  from Cons.prems have f: "f \<noteq> OnJoined p" "f \<noteq> OnErr p" and es: "closures_of p es = []"
    by (auto simp: e closures_of_empty_iff)
  define w1 where "w1 = (if once then unwrap_once k (event_name ev) f w else w)"
  have 1: "closures_of p (callbacks (sockets w1 ! j) n) = closures_of p (callbacks (sockets w ! j) n)"
    by (simp add: w1_def closures_kept_unwrap_once f)
  have 2: "closures_of p (callbacks (sockets (snd (invoke f ev w1)) ! j) n) =
           closures_of p (callbacks (sockets w ! j) n)"
    by (simp add: closures_kept_invoke f 1)
  from 2 Cons.IH [OF es, of "snd (invoke f ev w1)"] show ?case
    by (simp add: e dispatch_Cons w1_def)
qed

lemma listening_deliver_other:
  assumes "listening p k w"
    and "j \<noteq> k \<or> (event_name ev \<noteq> ''agency-joined'' \<and> event_name ev \<noteq> ''error'')"
  shows "listening p k (deliver j ev w)"
proof (cases "j < length (sockets w) \<and> admits (sockets w ! j) ev")
  case False
  with assms(1) show ?thesis by (auto simp: deliver_def)
next
  case True
  have "closures_of p (callbacks (sockets w ! j) (event_name ev)) = []"
    using assms True by (auto simp: listening_def expected_def)
  then have "closures_of p (callbacks (sockets (deliver j ev w) ! i) n) =
             closures_of p (callbacks (sockets w ! i) n)" for i n
    using True
    by (simp add: deliver_def closures_kept_dispatch callbacks_update_channel arrive_def
          split: event.splits)
  with assms(1) show ?thesis
    by (simp add: listening_def)
qed

lemma listening_deliver_all:
  assumes "listening p k w"
    and "\<forall>(j, e) \<in> set evs. j \<noteq> k \<or> (event_name e \<noteq> ''agency-joined'' \<and> event_name e \<noteq> ''error'')"
  shows "listening p k (deliver_all evs w)"
  using assms unfolding deliver_all_def
proof (induction evs arbitrary: w)
  case Nil
  then show ?case by simp
next
  case (Cons e evs)
  obtain j ev where e: "e = (j, ev)" by (cases e)
  from Cons.prems have "listening p k (deliver j ev w)"
    by (intro listening_deliver_other) (auto simp: e)
  with Cons.prems Cons.IH [of "deliver j ev w"] show ?case
    by (simp add: e)
qed




lemma join_request_Returns:
  assumes "join_request x w0 = (Returns p, w1)"
  shows "\<exists>r1 wa agencies w2 (a :: agency) k.
    (if \<not> socket_connected w0 then connectSocket w0
     else (Returns (Opened (socket w0)), w0)) = (Returns r1, wa) \<and>
    getAgencies wa = (Returns agencies, w2) \<and>
    socket w2 = Some k \<and> p = length (promises w2) \<and>
    w1 = socket_emit k (JoinAgency (agency_id a))
           (socket_once k ''error'' (OnErr p)
             (socket_once k ''agency-joined'' (OnJoined p)
               (w2\<lparr>promises := promises w2 @ [Unsettled]\<rparr>)))"
proof -
  from assms obtain r1 wa agencies w2 where
    pre: "(if \<not> socket_connected w0 then connectSocket w0
           else (Returns (Opened (socket w0)), w0)) = (Returns r1, wa)"
    and dir: "getAgencies wa = (Returns agencies, w2)"
    and body: "(case find (\<lambda>a. agency_id a = x \<or> slug a = Some x) agencies of
         None \<Rightarrow> (Throws (Error (''Agency not found: '' @ x)), w2)
       | Some a \<Rightarrow>
           (case socket w2 of
              None \<Rightarrow> (Throws (TypeError ''this.socket is null''), w2)
            | Some k \<Rightarrow>
                (let p = length (promises w2);
                     w3 = w2\<lparr>promises := promises w2 @ [Unsettled]\<rparr>
                 in (Returns p,
                     socket_emit k (JoinAgency (agency_id a))
                       (socket_once k ''error'' (OnErr p)
                         (socket_once k ''agency-joined'' (OnJoined p) w3)))))) = (Returns p, w1)"
    unfolding join_request_def by (elim and_then_ReturnsE) blast
  from body obtain a where f: "find (\<lambda>a. agency_id a = x \<or> slug a = Some x) agencies = Some a"
    by (cases "find (\<lambda>a. agency_id a = x \<or> slug a = Some x) agencies") auto
  with body obtain k where k: "socket w2 = Some k"
    by (cases "socket w2") auto
  from body f k have "p = length (promises w2)"
    "w1 = socket_emit k (JoinAgency (agency_id a))
           (socket_once k ''error'' (OnErr p)
             (socket_once k ''agency-joined'' (OnJoined p)
               (w2\<lparr>promises := promises w2 @ [Unsettled]\<rparr>)))"
    by (auto simp: Let_def)
  with pre dir k show ?thesis
    by (intro exI conjI) assumption+
qed



subsection \<open>Steps that keep the agent's channel\<close>



lemma getRecentMessages_fields [simp]:
  "socket (snd (getRecentMessages opts w)) = socket w"
  "sockets (snd (getRecentMessages opts w)) = sockets w"
  "promises (snd (getRecentMessages opts w)) = promises w"
  unfolding getRecentMessages_def
  by (rule and_then_preserves, simp, simp add: Let_def split: list.splits reply.splits)+

lemma closures_of_user [simp]: "closures_of p (es @ [(User h, b)]) = closures_of p es"
  by (simp add: closures_of_def)

























section \<open>Re-attachment of the registry\<close>

subsection \<open>Deliveries leave the caller's handlers attached\<close>

lemma dispatch_keeps:
  assumes "\<And>f w. well_formed w \<Longrightarrow> g (snd (invoke f ev w)) = g w"
    and "\<And>f w. well_formed w \<Longrightarrow> g (unwrap_once k (event_name ev) f w) = g w"
    and "well_formed w"
  shows "g (dispatch k ev es w) = g w"
  using assms(3)
proof (induction es arbitrary: w)
  case Nil
  then show ?case by simp
next
  case (Cons e es)
  obtain f once where e: "e = (f, once)" by (cases e)
  define w1 where "w1 = (if once then unwrap_once k (event_name ev) f w else w)"
  have w1: "well_formed w1" "g w1 = g w"
    using Cons.prems assms(2) by (simp_all add: w1_def well_formed_unwrap_once)
  then have w2: "well_formed (snd (invoke f ev w1))" "g (snd (invoke f ev w1)) = g w"
    using assms(1) by (simp_all add: well_formed_invoke)
  with Cons.IH [of "snd (invoke f ev w1)"] show ?case
    by (simp add: e dispatch_Cons w1_def [symmetric])
qed

lemma deliver_keeps:
  assumes "\<And>f w. well_formed w \<Longrightarrow> g (snd (invoke f ev w)) = g w"
    and "\<And>f w. well_formed w \<Longrightarrow> g (unwrap_once k (event_name ev) f w) = g w"
    and "\<And>w. g (update_channel k (arrive ev) w) = g w"
    and "well_formed w"
  shows "g (deliver k ev w) = g w"
proof -
  have "well_formed (update_channel k (arrive ev) w)"
    using assms(4) by (rule well_formed_flags) (simp add: arrive_def split: event.splits)
  from dispatch_keeps [of g ev k, OF assms(1) assms(2) this] assms(3) show ?thesis
    by (simp add: deliver_def)
qed

lemma run_inbox_keeps:
  assumes "\<And>k ev w. well_formed w \<Longrightarrow> g (deliver k ev w) = g w"
    and "\<And>w i. g (w\<lparr>inbox := i\<rparr>) = g w"
    and "well_formed w"
  shows "g (run_inbox p i w) = g w"
  using assms(3)
proof (induction i arbitrary: w)
  case Nil
  then show ?case by (simp add: assms(2))
next
  case (Cons e i)
  obtain k ev where e: "e = (k, ev)" by (cases e)
  from Cons.prems have "well_formed (deliver k ev w)" "g (deliver k ev w) = g w"
    by (simp_all add: well_formed_deliver assms(1))
  with Cons.IH [of "deliver k ev w"] show ?case
    by (simp add: e assms(2))
qed

lemma await_keeps:
  assumes "\<And>k ev w. well_formed w \<Longrightarrow> g (deliver k ev w) = g w"
    and "\<And>w i. g (w\<lparr>inbox := i\<rparr>) = g w"
    and "well_formed w"
  shows "g (snd (await p w)) = g w"
  using run_inbox_keeps [where g = g and p = p and i = "inbox w" and w = w, OF assms]
  by (simp add: await_def Let_def split: settled.splits)

lemma user_of_remove1:
  "list_all (entry_ok n) es \<Longrightarrow>
   concat (map user_of (remove1 (f, True) es)) = concat (map user_of es)"
proof (induction es)
  case Nil
  then show ?case by simp
next
  case (Cons e es)
  then show ?case by (cases f) auto
qed

lemma user_of_remove_first_closure:
  "(\<And>h. f \<noteq> User h) \<Longrightarrow> concat (map user_of (remove_first f es)) = concat (map user_of es)"
proof (induction es)
  case Nil
  then show ?case by simp
next
  case (Cons e es)
  obtain f' b where e: "e = (f', b)" by (cases e)
  with Cons show ?case by (cases f') auto
qed

lemma attached_flags [simp]:
  "attached (c\<lparr>connected := b\<rparr>) n = attached c n"
  "attached (c\<lparr>closed := b\<rparr>) n = attached c n"
  "attached (c\<lparr>outbox := ob\<rparr>) n = attached c n"
  by (simp_all add: attached_def)

lemma attached_arrive [simp]: "attached (arrive ev c) n = attached c n"
  by (simp add: arrive_def split: event.splits)

lemma attached_unwrap_once:
  assumes "well_formed w"
  shows "attached (sockets (unwrap_once k n' f w) ! j) n = attached (sockets w ! j) n"
proof (cases "j = k \<and> k < length (sockets w)")
  case True
  with assms have "channel_ok (length (promises w)) (sockets w ! k)"
    by (simp add: well_formed_def list_all_length)
  then have "list_all (entry_ok (length (promises w))) (callbacks (sockets w ! k) n')"
    by (simp add: channel_ok_def)
  with True show ?thesis
    by (simp add: unwrap_once_def nth_update_channel attached_def user_of_remove1)
next
  case False
  then show ?thesis
    by (auto simp: unwrap_once_def nth_update_channel)
qed

lemma attached_socket_off_closure:
  assumes "\<And>h. f \<noteq> User h"
  shows "attached (sockets (socket_off k n' f w) ! j) n = attached (sockets w ! j) n"
  using assms
  by (simp add: socket_off_def nth_update_channel attached_def user_of_remove_first_closure)

lemma attached_invoke:
  "attached (sockets (snd (invoke f ev w)) ! j) n = attached (sockets w ! j) n"
  by (cases f)
    (simp_all add: Let_def attached_socket_off_closure split: prod.splits option.splits)

lemma attached_deliver:
  assumes "well_formed w"
  shows "attached (sockets (deliver k ev w) ! j) n = attached (sockets w ! j) n"
  by (rule deliver_keeps [where g = "\<lambda>w. attached (sockets w ! j) n", OF _ _ _ assms])
    (simp_all add: attached_invoke attached_unwrap_once nth_update_channel)

lemma attached_await:
  assumes "well_formed w"
  shows "attached (sockets (snd (await p w)) ! j) n = attached (sockets w ! j) n"
  by (rule await_keeps [where g = "\<lambda>w. attached (sockets w ! j) n", OF _ _ assms])
    (simp_all add: attached_deliver)

lemma flags_invoke:
  "connected (sockets (snd (invoke f ev w)) ! j) = connected (sockets w ! j)"
  "closed (sockets (snd (invoke f ev w)) ! j) = closed (sockets w ! j)"
  by (cases f; simp add: Let_def socket_off_def nth_update_channel split: prod.splits option.splits)+

lemma flags_unwrap_once:
  "connected (sockets (unwrap_once k n f w) ! j) = connected (sockets w ! j)"
  "closed (sockets (unwrap_once k n f w) ! j) = closed (sockets w ! j)"
  by (simp_all add: unwrap_once_def nth_update_channel)

lemma flags_dispatch:
  "connected (sockets (dispatch k ev es w) ! j) = connected (sockets w ! j)"
  "closed (sockets (dispatch k ev es w) ! j) = closed (sockets w ! j)"
  by (rule dispatch_preserves; simp add: flags_invoke flags_unwrap_once)+

lemma closed_deliver: "closed (sockets (deliver k ev w) ! j) = closed (sockets w ! j)"
  by (rule deliver_preserves)
    (simp_all add: flags_invoke flags_unwrap_once nth_update_channel arrive_def split: event.splits)

lemma closed_await: "closed (sockets (snd (await p w)) ! j) = closed (sockets w ! j)"
  by (rule await_preserves) (simp_all add: closed_deliver)

subsection \<open>A channel that \<open>connectSocket\<close> returns is connected\<close>

lemma opener_only_shrinks:
  assumes "opener_only p k w" and "shrinks w w'"
  shows "opener_only p k w'"
proof -
  have "set (callbacks (sockets w' ! j) n) \<subseteq> set (callbacks (sockets w ! j) n)" for j n
  proof
    fix x
    assume "x \<in> set (callbacks (sockets w' ! j) n)"
    moreover have "subseq (callbacks (sockets w' ! j) n) (callbacks (sockets w ! j) n)"
      using assms(2) by (simp add: shrinks_def)
    ultimately show "x \<in> set (callbacks (sockets w ! j) n)"
      by (auto dest: list_emb_set)
  qed
  note s = this
  show ?thesis
    unfolding opener_only_def
  proof (intro allI impI ballI)
    fix j n e
    assume "j < length (sockets w')" and "e \<in> set (callbacks (sockets w' ! j) n)"
    with s [of j n] assms(2) have "j < length (sockets w)" "e \<in> set (callbacks (sockets w ! j) n)"
      by (auto simp: shrinks_def)
    with assms(1) show "fst e \<noteq> OnJoined p \<and> (fst e = ConnectResolve p \<longrightarrow> j = k \<and> n = ''connect'')"
      unfolding opener_only_def by blast
  qed
qed

lemma invoke_resolves:
  assumes "promise_state w p = Unsettled"
    and "promise_state (snd (invoke f ev w)) p = Resolved v"
  shows "f = ConnectResolve p \<or> f = OnJoined p"
  using assms
  by (cases f) (auto simp: Let_def promise_state_settle split: prod.splits option.splits if_splits)

lemma dispatch_opening:
  assumes "\<forall>e \<in> set es. fst e \<noteq> OnJoined p \<and> (fst e = ConnectResolve p \<longrightarrow> connected (sockets w ! i))"
    and "\<forall>v. promise_state w p = Resolved v \<longrightarrow> connected (sockets w ! i)"
  shows "\<forall>v. promise_state (dispatch k ev es w) p = Resolved v \<longrightarrow>
             connected (sockets (dispatch k ev es w) ! i)"
  using assms
proof (induction es arbitrary: w)
  case Nil
  then show ?case by simp
next
  case (Cons e es)
  obtain f once where e: "e = (f, once)" by (cases e)
  define w1 where "w1 = (if once then unwrap_once k (event_name ev) f w else w)"
  define w2 where "w2 = snd (invoke f ev w1)"
  have c: "connected (sockets w2 ! i) = connected (sockets w ! i)"
    by (simp add: w2_def w1_def flags_invoke flags_unwrap_once)
  have p1: "promise_state w1 p = promise_state w p"
    by (simp add: w1_def)
  have g: "\<forall>v. promise_state w2 p = Resolved v \<longrightarrow> connected (sockets w2 ! i)"
  proof (intro allI impI)
    fix v
    assume r: "promise_state w2 p = Resolved v"
    show "connected (sockets w2 ! i)"
    proof (cases "promise_state w1 p = Unsettled")
      case True
      from invoke_resolves [OF True r [unfolded w2_def]] Cons.prems(1) show ?thesis
        by (auto simp: e c)
    next
      case False
      from promise_kept_invoke [OF False, of f ev] r have "promise_state w p = Resolved v"
        by (simp add: w2_def [symmetric] p1)
      with Cons.prems(2) show ?thesis
        by (simp add: c)
    qed
  qed
  have "\<forall>e \<in> set es. fst e \<noteq> OnJoined p \<and> (fst e = ConnectResolve p \<longrightarrow> connected (sockets w2 ! i))"
    using Cons.prems(1) by (simp add: c)
  from Cons.IH [OF this g] g show ?case
    by (simp add: e dispatch_Cons w1_def [symmetric] w2_def [symmetric])
qed

lemma event_named_connect:
  assumes "event_name ev = ''connect''" and "admits c ev"
  shows "connected (arrive ev c)"
  using assms by (cases ev) (simp_all add: admits_def arrive_def)

lemma deliver_opening:
  assumes "opener_only p i w" and "promise_state w p = Unsettled" and "i < length (sockets w)"
  shows "\<forall>v. promise_state (deliver j ev w) p = Resolved v \<longrightarrow>
             connected (sockets (deliver j ev w) ! i)"
proof (cases "j < length (sockets w) \<and> admits (sockets w ! j) ev")
  case True
  define wa where "wa = update_channel j (arrive ev) w"
  have "\<forall>e \<in> set (callbacks (sockets w ! j) (event_name ev)).
          fst e \<noteq> OnJoined p \<and> (fst e = ConnectResolve p \<longrightarrow> connected (sockets wa ! i))"
  proof
    fix e
    assume e: "e \<in> set (callbacks (sockets w ! j) (event_name ev))"
    with assms(1) True have o: "fst e \<noteq> OnJoined p"
      and c: "fst e = ConnectResolve p \<longrightarrow> j = i \<and> event_name ev = ''connect''"
      by (auto simp: opener_only_def)
    have "connected (sockets wa ! i)" if "fst e = ConnectResolve p"
      using c that True by (simp add: wa_def nth_update_channel event_named_connect)
    with o show "fst e \<noteq> OnJoined p \<and> (fst e = ConnectResolve p \<longrightarrow> connected (sockets wa ! i))"
      by simp
  qed
  moreover have "\<forall>v. promise_state wa p = Resolved v \<longrightarrow> connected (sockets wa ! i)"
    using assms(2) by (simp add: wa_def)
  ultimately show ?thesis
    using dispatch_opening [of "callbacks (sockets w ! j) (event_name ev)" p wa i j ev] True
    by (simp add: deliver_def wa_def)
next
  case False
  with assms(2) show ?thesis
    by (auto simp: deliver_def)
qed

lemma run_inbox_opening:
  assumes "opener_only p i w" and "i < length (sockets w)"
    and "\<forall>v. promise_state w p = Resolved v \<longrightarrow> connected (sockets w ! i)"
  shows "\<forall>v. promise_state (run_inbox p evs w) p = Resolved v \<longrightarrow>
             connected (sockets (run_inbox p evs w) ! i)"
  using assms
proof (induction evs arbitrary: w)
  case Nil
  then show ?case by simp
next
  case (Cons e evs)
  obtain j ev where e: "e = (j, ev)" by (cases e)
  show ?case
  proof (cases "promise_state w p = Unsettled")
    case True
    have "opener_only p i (deliver j ev w)"
      using Cons.prems(1) shrinks_deliver by (rule opener_only_shrinks)
    moreover have "i < length (sockets (deliver j ev w))"
      using Cons.prems(2) by simp
    ultimately show ?thesis
      using Cons.IH [of "deliver j ev w"] deliver_opening [OF Cons.prems(1) True Cons.prems(2), of j ev] True
      by (simp add: e)
  next
    case False
    with Cons.prems(3) show ?thesis
      by (simp add: e)
  qed
qed

lemma open_socket_opener:
  assumes "well_formed w" and "open_socket w = (Returns p, w1)"
  shows "opener_only p (length (sockets w)) w1"
    and "promise_state w1 p = Unsettled"
    and "attached (sockets w1 ! length (sockets w)) n = []"
    and "\<not> closed (sockets w1 ! length (sockets w))"
proof -
  from assms(2) obtain w0 where e: "ensure_token w = (Returns (), w0)"
    and p: "p = length (promises w0)"
    and w1: "w1 = socket_on (length (sockets w0)) ''connect_error'' (ConnectReject p)
               (socket_on (length (sockets w0)) ''connect'' (ConnectResolve p)
                 (w0\<lparr>socket := Some (length (sockets w0)),
                       sockets := sockets w0 @
                         [\<lparr>uri = apiUrl w0, auth = token w0, connected = False, closed = False,
                           callbacks = \<lambda>_. [], outbox = []\<rparr>],
                       promises := promises w0 @ [Unsettled]\<rparr>))"
    by (rule open_socket_Returns)
  from e have w0: "w0 = snd (ensure_token w)"
    by simp
  have s: "sockets w0 = sockets w"
    by (simp add: w0)
  have wf: "well_formed w0"
    using assms(1) by (simp add: w0 well_formed_ensure_token)
  define k where "k = length (sockets w)"
  have old: "fst e \<noteq> OnJoined p \<and> fst e \<noteq> ConnectResolve p"
    if "j < length (sockets w)" "e \<in> set (callbacks (sockets w ! j) m)" for j m e
  proof -
    from wf that(1) have "channel_ok (length (promises w0)) (sockets w ! j)"
      by (simp add: well_formed_def list_all_length s)
    with that(2) have "entry_ok (length (promises w0)) e"
      by (simp add: channel_ok_def list_all_iff)
    then show ?thesis
      by (cases e; cases "fst e") (auto simp: p)
  qed
  have cb: "callbacks (sockets w1 ! j) m =
      (if j = k
       then (if m = ''connect'' then [(ConnectResolve p, False)]
             else if m = ''connect_error'' then [(ConnectReject p, False)] else [])
       else callbacks (sockets w ! j) m)" if "j < Suc k" for j m
    using that by (simp add: w1 s k_def socket_on_def update_channel_def nth_append)
  have len: "length (sockets w1) = Suc k"
    by (simp add: w1 s k_def)
  show "opener_only p (length (sockets w)) w1"
    unfolding opener_only_def k_def [symmetric]
  proof (intro allI impI ballI)
    fix j m e
    assume "j < length (sockets w1)" and "e \<in> set (callbacks (sockets w1 ! j) m)"
    then show "fst e \<noteq> OnJoined p \<and> (fst e = ConnectResolve p \<longrightarrow> j = k \<and> m = ''connect'')"
      using old [of j e m] by (auto simp: len cb k_def split: if_splits)
  qed
  show "promise_state w1 p = Unsettled"
    by (simp add: w1 promise_state_def p)
  show "attached (sockets w1 ! length (sockets w)) n = []"
    using cb [of k n] by (simp add: attached_def k_def)
  show "\<not> closed (sockets w1 ! length (sockets w))"
    by (simp add: w1 s socket_on_def update_channel_def)
qed

lemma connectSocket_opened:
  assumes "well_formed w" and "connectSocket w = (Returns r, w')"
  shows "socket w' = Some (length (sockets w))"
    and "length (sockets w') = Suc (length (sockets w))"
    and "connected (sockets w' ! length (sockets w))"
    and "\<not> closed (sockets w' ! length (sockets w))"
    and "attached (sockets w' ! length (sockets w)) n = []"
proof -
  from assms(2) obtain p w1 where o: "open_socket w = (Returns p, w1)"
    and a: "await p w1 = (Returns r, w')"
    unfolding connectSocket_def by (elim and_then_ReturnsE)
  define k where "k = length (sockets w)"
  from connectSocket_socket [OF assms(2)]
  show "socket w' = Some (length (sockets w))" "length (sockets w') = Suc (length (sockets w))"
    by simp_all
  from o have w1: "w1 = snd (open_socket w)"
    by simp
  have wf: "well_formed w1"
    using assms(1) by (simp add: w1 well_formed_open_socket)
  from a have w': "w' = snd (await p w1)"
    by simp
  from a have r: "promise_state (run_inbox p (inbox w1) w1) p = Resolved r"
    and ri: "w' = run_inbox p (inbox w1) w1"
    by (simp_all add: await_def Let_def split: settled.splits)
  have "k < length (sockets w1)"
    using open_socket_socket [OF o] by (simp add: k_def)
  with run_inbox_opening [of p k w1 "inbox w1"] open_socket_opener(1,2) [OF assms(1) o] r
  show "connected (sockets w' ! length (sockets w))"
    by (simp add: k_def ri)
  show "\<not> closed (sockets w' ! length (sockets w))"
    using open_socket_opener(4) [OF assms(1) o] by (simp add: w' closed_await)
  show "attached (sockets w' ! length (sockets w)) n = []"
    using open_socket_opener(3) [OF assms(1) o] by (simp add: w' attached_await [OF wf])
qed

subsection \<open>The loop of \<open>connectAndJoin\<close>\<close>

lemma attach_handlers_preserves:
  assumes "\<And>h w. g (socket_on k ev (User h) w) = g w"
  shows "g (fold (\<lambda>h. socket_on k ev (User h)) hs w) = g w"
  by (induction hs arbitrary: w) (simp_all add: assms)

lemma attach_listeners_preserves:
  assumes "\<And>ev h w. g (socket_on k ev (User h) w) = g w"
  shows "g (attach_listeners k ls w) = g w"
  unfolding attach_listeners_def
  by (induction ls arbitrary: w) (simp_all add: attach_handlers_preserves assms split: prod.splits)

lemma attach_listeners_fields [simp]:
  "socket (attach_listeners k ls w) = socket w"
  "length (sockets (attach_listeners k ls w)) = length (sockets w)"
  "listeners (attach_listeners k ls w) = listeners w"
  "connected (sockets (attach_listeners k ls w) ! j) = connected (sockets w ! j)"
  "closed (sockets (attach_listeners k ls w) ! j) = closed (sockets w ! j)"
  by (rule attach_listeners_preserves; simp add: socket_on_def nth_update_channel)+

lemma attached_attach_handlers:
  assumes "k < length (sockets w)"
  shows "attached (sockets (fold (\<lambda>h. socket_on k ev (User h)) hs w) ! k) n =
           attached (sockets w ! k) n @ (if n = ev then hs else [])"
  using assms
proof (induction hs arbitrary: w)
  case Nil
  then show ?case by simp
next
  case (Cons h hs)
  have "attached (sockets (socket_on k ev (User h) w) ! k) n =
          attached (sockets w ! k) n @ (if n = ev then [h] else [])"
    using Cons.prems by (simp add: socket_on_def nth_update_channel attached_def)
  with Cons.IH [of "socket_on k ev (User h) w"] Cons.prems show ?case
    by simp
qed

lemma attached_attach_listeners:
  assumes "k < length (sockets w)" and "distinct (map fst ls)"
  shows "attached (sockets (attach_listeners k ls w) ! k) n =
           attached (sockets w ! k) n @ (case map_of ls n of None \<Rightarrow> [] | Some hs \<Rightarrow> hs)"
  using assms
proof (induction ls arbitrary: w)
  case Nil
  then show ?case by (simp add: attach_listeners_def)
next
  case (Cons e ls)
  obtain ev hs where e: "e = (ev, hs)" by (cases e)
  define w1 where "w1 = fold (\<lambda>h. socket_on k ev (User h)) hs w"
  have l: "k < length (sockets w1)"
    unfolding w1_def using Cons.prems(1)
    by (simp add: attach_handlers_preserves [where g = "\<lambda>w. length (sockets w)"])
  have a: "attach_listeners k (e # ls) w = attach_listeners k ls w1"
    by (simp add: attach_listeners_def e w1_def)
  have n: "map_of ls ev = None"
    using Cons.prems(2) by (simp add: e map_of_eq_None_iff)
  have d: "distinct (map fst ls)"
    using Cons.prems(2) by simp
  have "attached (sockets (attach_listeners k ls w1) ! k) n =
          attached (sockets w ! k) n @ (case map_of (e # ls) n of None \<Rightarrow> [] | Some hs \<Rightarrow> hs)"
    using Cons.IH [OF l d] attached_attach_handlers [OF Cons.prems(1), of ev hs n] n
    by (simp add: e w1_def [symmetric])
  then show ?case
    by (simp only: a)
qed

lemma join_connected:
  assumes "well_formed w" and "socket_connected w" and "join x w = (Returns r, w')"
  shows "socket w' = socket w"
    and "length (sockets w') = length (sockets w)"
    and "attached (sockets w' ! j) n = attached (sockets w ! j) n"
    and "closed (sockets w' ! j) = closed (sockets w ! j)"
proof -
  from assms(3) obtain p w1 where jr: "join_request x w = (Returns p, w1)"
    and a: "await p w1 = (Returns r, w')"
    unfolding join_def by (elim and_then_ReturnsE)
  from join_request_Returns [OF jr] assms(2)
  obtain agencies w2 and a :: agency and k where g: "getAgencies w = (Returns agencies, w2)"
    and w1: "w1 = socket_emit k (JoinAgency (agency_id a))
                   (socket_once k ''error'' (OnErr p)
                     (socket_once k ''agency-joined'' (OnJoined p)
                       (w2\<lparr>promises := promises w2 @ [Unsettled]\<rparr>)))"
    by auto
  from g have w2: "w2 = snd (getAgencies w)"
    by simp
  have f: "socket w1 = socket w" "length (sockets w1) = length (sockets w)"
    by (simp_all add: w1 w2)
  have at: "attached (sockets w1 ! j) n = attached (sockets w ! j) n"
    by (simp add: w1 w2 socket_emit_def socket_once_def nth_update_channel attached_def)
  have cl: "closed (sockets w1 ! j) = closed (sockets w ! j)"
    by (simp add: w1 w2 socket_emit_def socket_once_def nth_update_channel)
  from jr have "w1 = snd (join_request x w)"
    by simp
  with assms(1) have wf: "well_formed w1"
    by (simp add: well_formed_join_request)
  from a have w': "w' = snd (await p w1)"
    by simp
  show "socket w' = socket w" "length (sockets w') = length (sockets w)"
    by (simp_all add: w' f)
  show "attached (sockets w' ! j) n = attached (sockets w ! j) n"
    by (simp add: w' attached_await [OF wf] at)
  show "closed (sockets w' ! j) = closed (sockets w ! j)"
    by (simp add: w' closed_await cl)
qed

subsection \<open>Registrations\<close>

lemma register_Cons: "register ((ev, h) # rs) w = register rs (on ev h w)"
  by (simp add: register_def)

lemma handlers_of_register:
  "handlers_of (register rs w) e = handlers_of w e @ registered rs e"
proof (induction rs arbitrary: w)
  case Nil
  then show ?case by (simp add: register_def registered_def)
next
  case (Cons r rs)
  obtain ev h where r: "r = (ev, h)" by (cases r)
  from Cons [of "on ev h w"] show ?case
    by (simp add: r register_Cons handlers_of_on registered_def)
qed

lemma well_formed_register: "well_formed w \<Longrightarrow> well_formed (register rs w)"
proof (induction rs arbitrary: w)
  case Nil
  then show ?case by (simp add: register_def)
next
  case (Cons r rs)
  obtain ev h where r: "r = (ev, h)" by (cases r)
  from Cons.IH [of "on ev h w"] Cons.prems show ?case
    by (simp add: r register_Cons well_formed_on)
qed

lemma length_sockets_register [simp]: "length (sockets (register rs w)) = length (sockets w)"
proof (induction rs arbitrary: w)
  case Nil
  then show ?case by (simp add: register_def)
next
  case (Cons r rs)
  obtain ev h where r: "r = (ev, h)" by (cases r)
  from Cons [of "on ev h w"] show ?case
    by (simp add: r register_Cons)
qed

lemma disconnect_registry [simp]:
  "listeners (disconnect w) = listeners w"
  "length (sockets (disconnect w)) = length (sockets w)"
  by (simp_all add: disconnect_def socket_disconnect_def Let_def split: option.splits)

lemma handlers_of_disconnect: "handlers_of (disconnect w) e = handlers_of w e"
  by (simp add: handlers_of_def)

subsection \<open>Emissions on a connected channel\<close>

lemma emitted_admitted:
  "emitted_by_server ev \<Longrightarrow> admits c ev = (connected c \<and> \<not> closed c)"
  by (cases ev) (auto simp: admits_def)

lemma emitted_arrive: "emitted_by_server ev \<Longrightarrow> arrive ev c = c"
  by (cases ev) (simp_all add: arrive_def)

lemma connected_deliver_emitted:
  assumes "emitted_by_server ev"
  shows "connected (sockets (deliver k ev w) ! j) = connected (sockets w ! j)"
  using assms
  by (simp add: deliver_def flags_dispatch nth_update_channel emitted_arrive)

lemma calls_deliveries:
  assumes "well_formed w" and "socket w = Some k" and "k < length (sockets w)"
    and "connected (sockets w ! k)" and "\<not> closed (sockets w ! k)"
    and "list_all emitted_by_server evs"
  shows "calls (deliver_all (map (Pair k) evs) w) =
           calls w @ concat (map (\<lambda>ev. calls_to (attached (sockets w ! k) (event_name ev)) ev) evs)"
  using assms
proof (induction evs arbitrary: w)
  case Nil
  then show ?case by (simp add: deliver_all_def)
next
  case (Cons ev evs)
  define w1 where "w1 = deliver k ev w"
  have adm: "admits (sockets w ! k) ev"
    using Cons.prems by (simp add: emitted_admitted)
  have c: "calls w1 = calls w @ calls_to (attached (sockets w ! k) (event_name ev)) ev"
    using deliver_calls [of w k ev] Cons.prems adm by (simp add: w1_def calls_to_def)
  have i: "well_formed w1" "socket w1 = Some k" "k < length (sockets w1)"
    "connected (sockets w1 ! k)" "\<not> closed (sockets w1 ! k)" "list_all emitted_by_server evs"
    using Cons.prems
    by (simp_all add: w1_def well_formed_deliver connected_deliver_emitted closed_deliver)
  have at: "attached (sockets w1 ! k) n = attached (sockets w ! k) n" for n
    using Cons.prems(1) by (simp add: w1_def attached_deliver)
  from Cons.IH [OF i] show ?case
    by (simp add: deliver_all_def w1_def [symmetric] c at)
qed

subsection \<open>The registry on the channel of \<open>connectAndJoin\<close>\<close>

lemma connectAndJoin_attached:
  assumes "well_formed w" and "connectAndJoin y w = (Returns r, w')"
  shows "well_formed w' \<and> socket w' = Some (length (sockets w)) \<and>
         length (sockets w) < length (sockets w') \<and>
         \<not> closed (sockets w' ! length (sockets w)) \<and>
         (\<forall>e. attached (sockets w' ! length (sockets w)) e = handlers_of w e)"
proof -
  define k where "k = length (sockets w)"
  define x where "x = (case y of None \<Rightarrow> ''lobby'' | Some x \<Rightarrow> x)"
  from assms(2) obtain u w1 v w2 where c1: "connect w = (Returns u, w1)"
    and c2: "connectSocket w1 = (Returns v, w2)"
    and c3: "(case socket w2 of
                None \<Rightarrow> (Throws (TypeError ''this.socket is null''), w2)
              | Some k \<Rightarrow> join x (attach_listeners k (listeners w2) w2)) = (Returns r, w')"
    unfolding connectAndJoin_def x_def by (elim and_then_ReturnsE) blast
  from c1 have w1: "w1 = snd (connect w)"
    by simp
  have wf1: "well_formed w1"
    using assms(1) by (simp add: w1 well_formed_connect)
  have k1: "length (sockets w1) = k"
    by (simp add: w1 k_def)
  note o = connectSocket_opened [OF wf1 c2, unfolded k1]
  from c2 have w2: "w2 = snd (connectSocket w1)"
    by simp
  have wf2: "well_formed w2"
    using wf1 by (simp add: w2 well_formed_connectSocket)
  have l2: "listeners w2 = listeners w"
    by (simp add: w2 w1)
  define w3 where "w3 = attach_listeners k (listeners w2) w2"
  from c3 o(1) have j: "join x w3 = (Returns r, w')"
    by (simp add: w3_def)
  have wf3: "well_formed w3"
    using wf2 by (simp add: w3_def well_formed_attach_listeners)
  have s3: "socket w3 = Some k" "length (sockets w3) = Suc k" "connected (sockets w3 ! k)"
    "\<not> closed (sockets w3 ! k)"
    using o by (simp_all add: w3_def)
  then have sc: "socket_connected w3"
    by (simp add: socket_connected_def)
  have "distinct (map fst (listeners w2))"
    using wf2 by (simp add: well_formed_def)
  then have a3: "attached (sockets w3 ! k) e = handlers_of w e" for e
    using attached_attach_listeners [of k w2 "listeners w2" e] o(2) o(5) [of e]
    by (simp add: w3_def handlers_of_def l2)
  from j have "w' = snd (join x w3)"
    by simp
  with wf3 have "well_formed w'"
    by (simp add: well_formed_join)
  with join_connected [OF wf3 sc j] s3 a3 show ?thesis
    by (simp add: k_def)
qed

text \<open>
  C4, as amended. Let an agent in any reachable state, or that agent after \<open>disconnect()\<close>,
  make any sequence of \<open>on(event, h)\<close> registrations and then call \<open>connectAndJoin\<close>,
  which returns. The agent's channel is then a fresh one, and for every event the handlers
  attached to it are exactly the registry's list for that event: the handlers registered
  before, followed by those of the sequence, each as many times as it is registered and in
  registration order. A handler registered once for an event, and not before, is attached
  exactly once. While the channel is connected, the events the server emits on it call,
  emission by emission and in emission order, each handler once per registration.
\<close>

theorem listeners_reattached:
  assumes "reachable w"
    and "w0 = w \<or> w0 = disconnect w"
    and "connectAndJoin y (register rs w0) = (Returns r, w')"
  shows "\<exists>k. socket w' = Some k \<and> length (sockets w) \<le> k \<and> k < length (sockets w') \<and>
           (\<forall>e. attached (sockets w' ! k) e = handlers_of w e @ registered rs e) \<and>
           (\<forall>e h. h \<notin> set (handlers_of w e) \<and> count_list (registered rs e) h = 1 \<longrightarrow>
                  count_list (attached (sockets w' ! k) e) h = 1) \<and>
           (\<forall>evs. connected (sockets w' ! k) \<and> list_all emitted_by_server evs \<longrightarrow>
              calls (deliver_all (map (Pair k) evs) w') =
                calls w' @
                concat (map (\<lambda>ev. calls_to (handlers_of w (event_name ev) @
                                              registered rs (event_name ev)) ev) evs))"
proof -
  define k where "k = length (sockets w)"
  from assms(1) have "well_formed w"
    by (rule reachable_well_formed)
  with assms(2) have "well_formed w0"
    by (auto simp: well_formed_disconnect)
  then have wf: "well_formed (register rs w0)"
    by (rule well_formed_register)
  have len: "length (sockets (register rs w0)) = k"
    using assms(2) by (auto simp: k_def)
  have h: "handlers_of (register rs w0) e = handlers_of w e @ registered rs e" for e
    using assms(2) by (auto simp: handlers_of_register handlers_of_disconnect)
  from connectAndJoin_attached [OF wf assms(3), unfolded len]
  have wf': "well_formed w'" and s: "socket w' = Some k" and l: "k < length (sockets w')"
    and c: "\<not> closed (sockets w' ! k)"
    and a: "attached (sockets w' ! k) e = handlers_of w e @ registered rs e" for e
    by (simp_all add: h)
  have once: "count_list (attached (sockets w' ! k) e) h = 1"
    if "h \<notin> set (handlers_of w e) \<and> count_list (registered rs e) h = 1" for e h
    using that by (simp add: a)
  have d: "calls (deliver_all (map (Pair k) evs) w') =
             calls w' @
             concat (map (\<lambda>ev. calls_to (handlers_of w (event_name ev) @
                                           registered rs (event_name ev)) ev) evs)"
    if "connected (sockets w' ! k) \<and> list_all emitted_by_server evs" for evs
    using calls_deliveries [OF wf' s l _ c, of evs] that by (simp add: a)
  from s l a once d show ?thesis
    unfolding k_def [symmetric] by (intro exI [of _ k]) simp
qed

lemmas registry_defs =
  register_def registered_def on_def push_handler.simps disconnect_def socket_disconnect_def
  handlers_of_def attached_def calls_to_def deliver_all_def

lemma reachable_reconnecting: "reachable reconnecting"
  unfolding reconnecting_def by (intro reachable.server reachable.on reachable_joined_lobby)

lemma rejoined_trace:
  "connectAndJoin (Some ''lobby'') (register [(''message'', 8)] (disconnect reconnecting)) =
     (Returns (Joined (Some ''r1'') [''bot'']), rejoined)"
  "socket rejoined = Some 1"
  "connected (sockets rejoined ! 1)"
  "calls rejoined = []"
  "handlers_of reconnecting ''message'' = [7]"
  by (simp_all add: rejoined_def reconnecting_def joined_lobby_value step_defs registry_defs)

theorem listeners_reattached_witness:
  "reachable reconnecting \<and>
   connectAndJoin (Some ''lobby'') (register [(''message'', 8)] (disconnect reconnecting)) =
     (Returns (Joined (Some ''r1'') [''bot'']), rejoined) \<and>
   socket rejoined = Some 1 \<and>
   connected (sockets rejoined ! 1) \<and>
   attached (sockets rejoined ! 1) ''message'' = [7, 8] \<and>
   count_list (attached (sockets rejoined ! 1) ''message'') 8 = 1 \<and>
   calls (deliver_all (map (Pair 1) [Other ''message'' ''a'', Other ''message'' ''b'']) rejoined) =
     [(7, Other ''message'' ''a''), (8, Other ''message'' ''a''),
      (7, Other ''message'' ''b''), (8, Other ''message'' ''b'')]"
proof -
  from listeners_reattached [OF reachable_reconnecting disjI2 [OF refl] rejoined_trace(1)]
  obtain k where k: "socket rejoined = Some k"
    and a: "\<forall>e. attached (sockets rejoined ! k) e =
                 handlers_of reconnecting e @ registered [(''message'', 8)] e"
    and o: "\<forall>e h. h \<notin> set (handlers_of reconnecting e) \<and>
                   count_list (registered [(''message'', 8)] e) h = 1 \<longrightarrow>
                   count_list (attached (sockets rejoined ! k) e) h = 1"
    and d: "\<forall>evs. connected (sockets rejoined ! k) \<and> list_all emitted_by_server evs \<longrightarrow>
              calls (deliver_all (map (Pair k) evs) rejoined) =
                calls rejoined @
                concat (map (\<lambda>ev. calls_to (handlers_of reconnecting (event_name ev) @
                                              registered [(''message'', 8)] (event_name ev)) ev) evs)"
    by blast
  from k have k1: "k = 1"
    by (simp add: rejoined_trace)
  from a have "attached (sockets rejoined ! 1) ''message'' = [7, 8]"
    by (simp add: k1 rejoined_trace registered_def)
  moreover from o [rule_format, of 8 "''message''"]
  have "count_list (attached (sockets rejoined ! 1) ''message'') 8 = 1"
    by (simp add: k1 rejoined_trace registered_def)
  moreover from d [rule_format, of "[Other ''message'' ''a'', Other ''message'' ''b'']"]
    rejoined_trace(3)
  have "calls (deliver_all (map (Pair 1) [Other ''message'' ''a'', Other ''message'' ''b'']) rejoined) =
     [(7, Other ''message'' ''a''), (8, Other ''message'' ''a''),
      (7, Other ''message'' ''b''), (8, Other ''message'' ''b'')]"
    by (simp add: k1 rejoined_trace registered_def calls_to_def)
  ultimately show ?thesis
    using reachable_reconnecting rejoined_trace(1,2,3) by simp
qed

text \<open>
  C4 as stated fails for a handler registered more than once. A new agent calls
  \<open>on('message', h)\<close> twice with the same function (handler 7) and then \<open>connectAndJoin\<close>:
  the loop attaches the function once per entry of the registry's list, so it is attached
  to the new channel twice, and one \<open>message\<close> emitted on the channel calls it twice.
\<close>

theorem handler_attached_twice_counterexample:
  "fst (connectAndJoin (Some ''lobby'') registering_twice) = Returns (Joined (Some ''r1'') [''bot'']) \<and>
   socket twice_registered = Some 0 \<and>
   attached (sockets twice_registered ! 0) ''message'' = [7, 7] \<and>
   calls (deliver 0 (Other ''message'' ''hi'') twice_registered) =
     [(7, Other ''message'' ''hi''), (7, Other ''message'' ''hi'')]"
  by (simp add: twice_registered_def registering_twice_def fresh_agent_def ctor_def
      step_defs registry_defs)

end
